theory Spec2Isabelle
  imports Main "HOL-Library.Word"
begin

section \<open>JavaScript strings\<close>

text \<open>
  A JavaScript string is a sequence of 16-bit code units. The regular expressions of the
  converter carry no \<^verbatim>\<open>u\<close> flag, so they too work on code units.
  \<open>js\<close> turns an ASCII literal into such a string.
\<close>

type_synonym jschar = "16 word"
type_synonym jsstring = "jschar list"

definition js :: "string \<Rightarrow> jsstring" where
  "js s = map of_char s"

abbreviation ch_nl :: jschar where "ch_nl \<equiv> 0x0A"
abbreviation ch_star :: jschar where "ch_star \<equiv> 0x2A"
abbreviation ch_dash :: jschar where "ch_dash \<equiv> 0x2D"
abbreviation ch_underscore :: jschar where "ch_underscore \<equiv> 0x5F"
abbreviation ch_backtick :: jschar where "ch_backtick \<equiv> 0x60"
abbreviation ch_hash :: jschar where "ch_hash \<equiv> 0x23"
abbreviation ch_gt :: jschar where "ch_gt \<equiv> 0x3E"
abbreviation ch_pipe :: jschar where "ch_pipe \<equiv> 0x7C"
abbreviation ch_colon :: jschar where "ch_colon \<equiv> 0x3A"
abbreviation ch_plus :: jschar where "ch_plus \<equiv> 0x2B"
abbreviation ch_dot :: jschar where "ch_dot \<equiv> 0x2E"
abbreviation ch_lbracket :: jschar where "ch_lbracket \<equiv> 0x5B"
abbreviation ch_rbracket :: jschar where "ch_rbracket \<equiv> 0x5D"
abbreviation ch_lparen :: jschar where "ch_lparen \<equiv> 0x28"
abbreviation ch_rparen :: jschar where "ch_rparen \<equiv> 0x29"
abbreviation ch_at :: jschar where "ch_at \<equiv> 0x40"
abbreviation ch_bullet :: jschar where "ch_bullet \<equiv> 0x2022"

text \<open>
  The character classes of ECMAScript: the line terminators (which \<^verbatim>\<open>.\<close> refuses),
  \<^verbatim>\<open>\s\<close> (white space and line terminators, also the set that
  \<^verbatim>\<open>trim\<close> and \<^verbatim>\<open>trimEnd\<close> strip), \<^verbatim>\<open>\w\<close> and
  \<^verbatim>\<open>\d\<close>.
\<close>

definition is_line_terminator :: "jschar \<Rightarrow> bool" where
  "is_line_terminator c = (c = 0x0A \<or> c = 0x0D \<or> c = 0x2028 \<or> c = 0x2029)"

definition is_space :: "jschar \<Rightarrow> bool" where
  "is_space c =
     (c = 0x09 \<or> c = 0x0A \<or> c = 0x0B \<or> c = 0x0C \<or> c = 0x0D \<or> c = 0x20 \<or> c = 0xA0
      \<or> c = 0x1680 \<or> (0x2000 \<le> c \<and> c \<le> 0x200A) \<or> c = 0x2028 \<or> c = 0x2029
      \<or> c = 0x202F \<or> c = 0x205F \<or> c = 0x3000 \<or> c = 0xFEFF)"

definition is_digit :: "jschar \<Rightarrow> bool" where
  "is_digit c = (0x30 \<le> c \<and> c \<le> 0x39)"

definition is_word_char :: "jschar \<Rightarrow> bool" where
  "is_word_char c =
     ((0x41 \<le> c \<and> c \<le> 0x5A) \<or> (0x61 \<le> c \<and> c \<le> 0x7A) \<or> is_digit c \<or> c = ch_underscore)"

definition trimStart :: "jsstring \<Rightarrow> jsstring" where
  "trimStart s = dropWhile is_space s"

definition trimEnd :: "jsstring \<Rightarrow> jsstring" where
  "trimEnd s = rev (dropWhile is_space (rev s))"

definition trim :: "jsstring \<Rightarrow> jsstring" where
  "trim s = trimEnd (trimStart s)"

definition startsWith :: "jsstring \<Rightarrow> jsstring \<Rightarrow> bool" where
  "startsWith s p = (take (length p) s = p)"

text \<open>
  \<^verbatim>\<open>s.split(sep)\<close> for a one-character separator: the result is never empty,
  \<^verbatim>\<open>"".split("\n")\<close> is \<^verbatim>\<open>[""]\<close>. \<^verbatim>\<open>xs.join(sep)\<close> is its inverse.
\<close>

fun js_split :: "jschar \<Rightarrow> jsstring \<Rightarrow> jsstring list" where
  "js_split sep [] = [[]]"
| "js_split sep (c # cs) =
     (if c = sep then [] # js_split sep cs
      else (case js_split sep cs of [] \<Rightarrow> [[c]] | l # ls \<Rightarrow> (c # l) # ls))"

fun js_join :: "jschar \<Rightarrow> jsstring list \<Rightarrow> jsstring" where
  "js_join sep [] = []"
| "js_join sep [l] = l"
| "js_join sep (l # ls) = l @ sep # js_join sep ls"

section \<open>The ADF tree\<close>

datatype adf_mark = Strong | Em | Code | Link jsstring

text \<open>
  A text node has \<open>marks\<close> only when a pattern matched; \<open>None\<close> is the absent key.
  A mention carries \<open>id\<close>, \<open>text\<close> and \<open>accessLevel\<close>.
\<close>

datatype adf_inline =
    Text jsstring "adf_mark list option"
  | Mention jsstring jsstring jsstring
  | HardBreak

section \<open>The inline parser\<close>

text \<open>
  The source scans with one global regular expression,
  \<^verbatim>\<open>(\*\*(.+?)\*\*)|(\*(.+?)\*)|(_(.+?)_)|(`([^`]+)`)|\[([^\]]+)\]\(([^)]+)\)|(@accountId:([a-zA-Z0-9:_-]+))\<close>.
  It has no anchor and no look-behind, so whether it matches at a position depends only on
  the text from that position on: the matchers below take that suffix and return the
  captured groups with the text after the match.

  \<open>lazy_span d s\<close> is \<^verbatim>\<open>(.+?)\<close> followed by the delimiter \<open>d\<close>: the shortest
  non-empty run of characters other than line terminators after which \<open>d\<close> stands.
\<close>

fun lazy_span :: "jsstring \<Rightarrow> jsstring \<Rightarrow> (jsstring \<times> jsstring) option" where
  "lazy_span d [] = None"
| "lazy_span d (c # cs) =
     (if is_line_terminator c then None
      else if startsWith cs d then Some ([c], drop (length d) cs)
      else (case lazy_span d cs of None \<Rightarrow> None | Some (g, r) \<Rightarrow> Some (c # g, r)))"

datatype inline_match =
    MBold jsstring
  | MItalicStar jsstring
  | MItalicUnderscore jsstring
  | MCode jsstring
  | MLink jsstring jsstring
  | MMention jsstring

definition match_bold :: "jsstring \<Rightarrow> (inline_match \<times> jsstring) option" where
  "match_bold t =
     (if startsWith t [ch_star, ch_star]
      then (case lazy_span [ch_star, ch_star] (drop 2 t) of
              None \<Rightarrow> None | Some (g, r) \<Rightarrow> Some (MBold g, r))
      else None)"

definition match_italic_star :: "jsstring \<Rightarrow> (inline_match \<times> jsstring) option" where
  "match_italic_star t =
     (if startsWith t [ch_star]
      then (case lazy_span [ch_star] (drop 1 t) of
              None \<Rightarrow> None | Some (g, r) \<Rightarrow> Some (MItalicStar g, r))
      else None)"

definition match_italic_underscore :: "jsstring \<Rightarrow> (inline_match \<times> jsstring) option" where
  "match_italic_underscore t =
     (if startsWith t [ch_underscore]
      then (case lazy_span [ch_underscore] (drop 1 t) of
              None \<Rightarrow> None | Some (g, r) \<Rightarrow> Some (MItalicUnderscore g, r))
      else None)"

text \<open>
  \<^verbatim>\<open>`([^`]+)`\<close>: the greedy class takes every character up to the next backtick;
  giving characters back cannot help, since none of them is a backtick.
\<close>

definition match_code :: "jsstring \<Rightarrow> (inline_match \<times> jsstring) option" where
  "match_code t =
     (if startsWith t [ch_backtick]
      then (let g = takeWhile (\<lambda>c. c \<noteq> ch_backtick) (drop 1 t);
                r = dropWhile (\<lambda>c. c \<noteq> ch_backtick) (drop 1 t)
            in if g \<noteq> [] \<and> startsWith r [ch_backtick] then Some (MCode g, drop 1 r) else None)
      else None)"

definition match_link :: "jsstring \<Rightarrow> (inline_match \<times> jsstring) option" where
  "match_link t =
     (if startsWith t [ch_lbracket]
      then (let label = takeWhile (\<lambda>c. c \<noteq> ch_rbracket) (drop 1 t);
                r = dropWhile (\<lambda>c. c \<noteq> ch_rbracket) (drop 1 t)
            in if label \<noteq> [] \<and> startsWith r [ch_rbracket, ch_lparen]
               then (let url = takeWhile (\<lambda>c. c \<noteq> ch_rparen) (drop 2 r);
                         r' = dropWhile (\<lambda>c. c \<noteq> ch_rparen) (drop 2 r)
                     in if url \<noteq> [] \<and> startsWith r' [ch_rparen]
                        then Some (MLink label url, drop 1 r') else None)
               else None)
      else None)"

definition is_account_id_char :: "jschar \<Rightarrow> bool" where
  "is_account_id_char c =
     ((0x61 \<le> c \<and> c \<le> 0x7A) \<or> (0x41 \<le> c \<and> c \<le> 0x5A) \<or> is_digit c
      \<or> c = ch_colon \<or> c = ch_underscore \<or> c = ch_dash)"

definition match_mention :: "jsstring \<Rightarrow> (inline_match \<times> jsstring) option" where
  "match_mention t =
     (if startsWith t (js ''@accountId:'')
      then (let g = takeWhile is_account_id_char (drop 11 t);
                r = dropWhile is_account_id_char (drop 11 t)
            in if g \<noteq> [] then Some (MMention g, r) else None)
      else None)"

text \<open>The alternation tries its branches from left to right at one position.\<close>

definition inlineRe_at :: "jsstring \<Rightarrow> (inline_match \<times> jsstring) option" where
  "inlineRe_at t =
     (case match_bold t of Some m \<Rightarrow> Some m | None \<Rightarrow>
      (case match_italic_star t of Some m \<Rightarrow> Some m | None \<Rightarrow>
       (case match_italic_underscore t of Some m \<Rightarrow> Some m | None \<Rightarrow>
        (case match_code t of Some m \<Rightarrow> Some m | None \<Rightarrow>
         (case match_link t of Some m \<Rightarrow> Some m | None \<Rightarrow> match_mention t)))))"

text \<open>
  \<^verbatim>\<open>inlineRe.exec(text)\<close> from \<open>lastIndex\<close>: the first position at which some branch
  matches. The result is the text skipped before the match, the match, and the text after.
\<close>

fun inlineRe_exec :: "jsstring \<Rightarrow> (jsstring \<times> inline_match \<times> jsstring) option" where
  "inlineRe_exec [] = None"
| "inlineRe_exec (c # cs) =
     (case inlineRe_at (c # cs) of
        Some (m, r) \<Rightarrow> Some ([], m, r)
      | None \<Rightarrow> (case inlineRe_exec cs of
                   None \<Rightarrow> None
                 | Some (pre, m, r) \<Rightarrow> Some (c # pre, m, r)))"

text \<open>The if-chain on the capture groups.\<close>

fun match_node :: "inline_match \<Rightarrow> adf_inline" where
  "match_node (MBold g) = Text g (Some [Strong])"
| "match_node (MItalicStar g) = Text g (Some [Em])"
| "match_node (MItalicUnderscore g) = Text g (Some [Em])"
| "match_node (MCode g) = Text g (Some [Code])"
| "match_node (MLink label url) = Text label (Some [Link url])"
| "match_node (MMention g) = Mention g (ch_at # g) []"

lemma lazy_span_shorter: "lazy_span d s = Some (g, r) \<Longrightarrow> length r < length s"
proof (induction s arbitrary: g r)
  case Nil
  then show ?case by simp
next
  case (Cons c cs)
  then show ?case
    by (auto split: if_splits option.splits)
qed

lemma startsWith_Cons: "startsWith t (p # ps) \<Longrightarrow> \<exists>t'. t = p # t'"
  by (cases t) (auto simp: startsWith_def)

lemma match_bold_shorter: "match_bold t = Some (m, r) \<Longrightarrow> length r < length t"
  by (auto simp: match_bold_def split: if_splits option.splits
      dest!: lazy_span_shorter startsWith_Cons)

lemma match_italic_star_shorter: "match_italic_star t = Some (m, r) \<Longrightarrow> length r < length t"
  by (auto simp: match_italic_star_def split: if_splits option.splits
      dest!: lazy_span_shorter startsWith_Cons)

lemma match_italic_underscore_shorter:
  "match_italic_underscore t = Some (m, r) \<Longrightarrow> length r < length t"
  by (auto simp: match_italic_underscore_def split: if_splits option.splits
      dest!: lazy_span_shorter startsWith_Cons)

lemma length_drop_dropWhile: "length (drop n (dropWhile P xs)) \<le> length xs"
  using length_dropWhile_le [of P xs] by simp

lemma match_code_shorter: "match_code t = Some (m, r) \<Longrightarrow> length r < length t"
proof -
  assume a: "match_code t = Some (m, r)"
  then obtain t' where t: "t = ch_backtick # t'"
    by (auto simp: match_code_def split: if_splits dest!: startsWith_Cons)
  from a t have "r = drop 1 (dropWhile (\<lambda>c. c \<noteq> ch_backtick) t')"
    by (auto simp: match_code_def Let_def split: if_splits)
  then show ?thesis
    using length_drop_dropWhile [of 1 "\<lambda>c. c \<noteq> ch_backtick" t'] t by simp
qed

lemma match_link_shorter: "match_link t = Some (m, r) \<Longrightarrow> length r < length t"
proof -
  assume a: "match_link t = Some (m, r)"
  then obtain t' where t: "t = ch_lbracket # t'"
    by (auto simp: match_link_def split: if_splits dest!: startsWith_Cons)
  define r1 where "r1 = dropWhile (\<lambda>c. c \<noteq> ch_rbracket) t'"
  from a t have "r = drop 1 (dropWhile (\<lambda>c. c \<noteq> ch_rparen) (drop 2 r1))"
    by (auto simp: match_link_def Let_def r1_def split: if_splits)
  then have "length r \<le> length r1"
    using length_drop_dropWhile [of 1 "\<lambda>c. c \<noteq> ch_rparen" "drop 2 r1"] by simp
  moreover have "length r1 \<le> length t'"
    unfolding r1_def by (rule length_dropWhile_le)
  ultimately show ?thesis using t by simp
qed

lemma match_mention_shorter: "match_mention t = Some (m, r) \<Longrightarrow> length r < length t"
proof -
  assume a: "match_mention t = Some (m, r)"
  then have s: "startsWith t (js ''@accountId:'')"
    by (auto simp: match_mention_def split: if_splits)
  then have "11 \<le> length t"
    by (cases "length t < 11") (auto simp: startsWith_def js_def dest: arg_cong [where f = length])
  moreover from a have "r = dropWhile is_account_id_char (drop 11 t)"
    by (auto simp: match_mention_def Let_def split: if_splits)
  then have "length r \<le> length t - 11"
    using length_dropWhile_le [of is_account_id_char "drop 11 t"] by simp
  ultimately show ?thesis by simp
qed

lemma inlineRe_at_shorter: "inlineRe_at t = Some (m, r) \<Longrightarrow> length r < length t"
  unfolding inlineRe_at_def
  by (auto split: option.splits
      dest: match_bold_shorter match_italic_star_shorter match_italic_underscore_shorter
        match_code_shorter match_link_shorter match_mention_shorter)

lemma inlineRe_exec_shorter: "inlineRe_exec t = Some (pre, m, r) \<Longrightarrow> length r < length t"
proof (induction t arbitrary: pre m r)
  case Nil
  then show ?case by simp
next
  case (Cons c cs)
  then show ?case
    by (fastforce split: option.splits dest: inlineRe_at_shorter)
qed

text \<open>The \<^verbatim>\<open>while\<close> loop of \<open>parseInline\<close>, on the text from \<open>lastIndex\<close> on.\<close>

function inline_nodes :: "jsstring \<Rightarrow> adf_inline list" where
  "inline_nodes t =
     (case inlineRe_exec t of
        None \<Rightarrow> (if t \<noteq> [] then [Text t None] else [])
      | Some (pre, m, r) \<Rightarrow>
          (if pre \<noteq> [] then [Text pre None] else []) @ match_node m # inline_nodes r)"
  by pat_completeness auto
termination
  by (relation "measure length") (auto dest: inlineRe_exec_shorter)

declare inline_nodes.simps [simp del]

definition parseInline :: "jsstring \<Rightarrow> adf_inline list" where
  "parseInline text =
     (let nodes = inline_nodes text in if nodes = [] then [Text [] None] else nodes)"

section \<open>Blocks and documents\<close>

text \<open>
  \<open>CodeBlock\<close> carries \<open>attrs.language\<close> when the fence names a language; \<open>Table\<close>
  carries its two fixed attributes, \<open>isNumberColumnEnabled\<close> and \<open>layout\<close>.
\<close>

datatype adf_block =
    Heading nat "adf_inline list"
  | Paragraph "adf_inline list"
  | BulletList "adf_listItem list"
  | OrderedList "adf_listItem list"
  | CodeBlock "jsstring option" "adf_inline list"
  | Rule
  | Blockquote "adf_block list"
  | Table bool string "adf_tableRow list"
and adf_listItem = ListItem "adf_block list"
and adf_tableRow = TableRow "adf_tableCell list"
and adf_tableCell = TableHeader "adf_block list" | TableCell "adf_block list"

record adf_document =
  version :: nat
  doc_type :: string
  content :: "adf_block list"

section \<open>The table parser\<close>

text \<open>
  \<^verbatim>\<open>^\|[\s\-:|]+\|$\<close>: a pipe, one or more characters of the class, a pipe, and
  nothing else. The class contains the pipe, so the greedy run gives the last pipe back.
\<close>

definition is_separator_char :: "jschar \<Rightarrow> bool" where
  "is_separator_char c = (is_space c \<or> c = ch_dash \<or> c = ch_colon \<or> c = ch_pipe)"

definition is_separator_row :: "jsstring \<Rightarrow> bool" where
  "is_separator_row t =
     (3 \<le> length t \<and> hd t = ch_pipe \<and> last t = ch_pipe
      \<and> list_all is_separator_char (butlast (tl t)))"

text \<open>
  \<^verbatim>\<open>line.replace(/^\|/, "").replace(/\|$/, "").split("|").map((c) => c.trim())\<close>
\<close>

definition strip_leading_pipe :: "jsstring \<Rightarrow> jsstring" where
  "strip_leading_pipe t = (if startsWith t [ch_pipe] then drop 1 t else t)"

definition strip_trailing_pipe :: "jsstring \<Rightarrow> jsstring" where
  "strip_trailing_pipe t = (if t \<noteq> [] \<and> last t = ch_pipe then butlast t else t)"

definition table_cells :: "jsstring \<Rightarrow> jsstring list" where
  "table_cells line =
     map trim (js_split ch_pipe (strip_trailing_pipe (strip_leading_pipe line)))"

definition cellNode :: "bool \<Rightarrow> jsstring \<Rightarrow> adf_tableCell" where
  "cellNode isHeader cellText =
     (if isHeader then TableHeader [Paragraph (parseInline cellText)]
      else TableCell [Paragraph (parseInline cellText)])"

text \<open>The \<^verbatim>\<open>for\<close> loop of \<open>parseTableBlock\<close>, from index \<open>i\<close> on.\<close>

fun table_rows :: "nat \<Rightarrow> jsstring list \<Rightarrow> adf_tableRow list" where
  "table_rows i [] = []"
| "table_rows i (l # ls) =
     (let line = trim l in
      if is_separator_row line then table_rows (i + 1) ls
      else TableRow (map (cellNode (i = 0)) (table_cells line)) # table_rows (i + 1) ls)"

definition parseTableBlock :: "jsstring list \<Rightarrow> adf_block" where
  "parseTableBlock lines = Table False ''default'' (table_rows 0 lines)"

section \<open>The block parser\<close>

text \<open>\<^verbatim>\<open>^```(\w*)$\<close>: the result is the language group.\<close>

abbreviation fence :: jsstring where
  "fence \<equiv> [ch_backtick, ch_backtick, ch_backtick]"

definition code_fence_open :: "jsstring \<Rightarrow> jsstring option" where
  "code_fence_open t =
     (if startsWith t fence \<and> list_all is_word_char (drop 3 t) then Some (drop 3 t) else None)"

text \<open>
  \<^verbatim>\<open>^(\*{3,}|-{3,}|_{3,})\s*$\<close>: the run of the first character is taken whole
  (a shorter run would have to be followed by white space), and only white space follows.
\<close>

definition is_rule :: "jsstring \<Rightarrow> bool" where
  "is_rule t =
     (case t of
        [] \<Rightarrow> False
      | c # _ \<Rightarrow> (c = ch_star \<or> c = ch_dash \<or> c = ch_underscore)
                 \<and> 3 \<le> length (takeWhile (\<lambda>x. x = c) t)
                 \<and> list_all is_space (dropWhile (\<lambda>x. x = c) t))"

text \<open>
  \<^verbatim>\<open>^(#{1,6})\s+(.+)$\<close>: one to six hashes, white space, then the rest of the line,
  which holds no line terminator. When nothing follows the white space, the greedy
  \<^verbatim>\<open>\s+\<close> gives its last character to the text group.
\<close>

definition heading_match :: "jsstring \<Rightarrow> (nat \<times> jsstring) option" where
  "heading_match t =
     (let hashes = takeWhile (\<lambda>c. c = ch_hash) t;
          ws = takeWhile is_space (dropWhile (\<lambda>c. c = ch_hash) t);
          r = dropWhile is_space (dropWhile (\<lambda>c. c = ch_hash) t)
      in if 1 \<le> length hashes \<and> length hashes \<le> 6 \<and> ws \<noteq> []
         then (if r \<noteq> []
               then (if list_all (\<lambda>c. \<not> is_line_terminator c) r
                     then Some (length hashes, r) else None)
               else if 2 \<le> length ws \<and> \<not> is_line_terminator (last ws)
               then Some (length hashes, [last ws]) else None)
         else None)"

text \<open>\<^verbatim>\<open>/^>\s?/\<close>, as a test and as the prefix that \<^verbatim>\<open>replace\<close> removes.\<close>

definition is_blockquote :: "jsstring \<Rightarrow> bool" where
  "is_blockquote t = startsWith t [ch_gt]"

definition strip_quote_marker :: "jsstring \<Rightarrow> jsstring" where
  "strip_quote_marker l =
     (if startsWith l [ch_gt]
      then (case drop 1 l of [] \<Rightarrow> [] | c # cs \<Rightarrow> if is_space c then cs else c # cs)
      else l)"

text \<open>
  \<^verbatim>\<open>/^\|.+\|/\<close>: a pipe, then a later pipe with at least one character between
  them and no line terminator before it.
\<close>

definition is_table_row :: "jsstring \<Rightarrow> bool" where
  "is_table_row t =
     (startsWith t [ch_pipe]
      \<and> ch_pipe \<in> set (drop 1 (takeWhile (\<lambda>c. \<not> is_line_terminator c) (drop 1 t))))"

text \<open>
  \<^verbatim>\<open>/^[\s]*[-*+\<bullet>]\s+/\<close> and \<^verbatim>\<open>/^[\s]*\d+\.\s+/\<close>: the result is the line
  with the matched prefix removed, \<open>None\<close> when the pattern does not match.
\<close>

definition is_bullet_marker :: "jschar \<Rightarrow> bool" where
  "is_bullet_marker c = (c = ch_dash \<or> c = ch_star \<or> c = ch_plus \<or> c = ch_bullet)"

definition bullet_item :: "jsstring \<Rightarrow> jsstring option" where
  "bullet_item line =
     (case dropWhile is_space line of
        [] \<Rightarrow> None
      | m # b \<Rightarrow> if is_bullet_marker m \<and> takeWhile is_space b \<noteq> []
                 then Some (dropWhile is_space b) else None)"

definition ordered_item :: "jsstring \<Rightarrow> jsstring option" where
  "ordered_item line =
     (let a = dropWhile is_space line;
          b = dropWhile is_digit a
      in if takeWhile is_digit a \<noteq> [] \<and> startsWith b [ch_dot]
            \<and> takeWhile is_space (drop 1 b) \<noteq> []
         then Some (dropWhile is_space (drop 1 b)) else None)"

definition listItem :: "jsstring \<Rightarrow> adf_listItem" where
  "listItem itemText = ListItem [Paragraph (parseInline itemText)]"

text \<open>\<open>flushParagraph\<close> pushes onto \<open>blocks\<close>; the blocks are passed in and returned.\<close>

definition flushParagraph :: "jsstring list \<Rightarrow> adf_block list \<Rightarrow> adf_block list" where
  "flushParagraph paraLines blocks =
     (if paraLines = [] then blocks
      else (let text = js_join ch_nl paraLines
            in if trim text = [] then blocks
               else blocks @ [Paragraph (parseInline text)]))"

definition is_fence_close :: "jsstring \<Rightarrow> bool" where
  "is_fence_close l = startsWith (trimEnd l) fence"

definition is_quote_line :: "jsstring \<Rightarrow> bool" where
  "is_quote_line l = is_blockquote (trimEnd l)"

definition is_table_line :: "jsstring \<Rightarrow> bool" where
  "is_table_line l = is_table_row (trimEnd l)"

definition is_bullet_line :: "jsstring \<Rightarrow> bool" where
  "is_bullet_line l = (bullet_item l \<noteq> None)"

definition is_ordered_line :: "jsstring \<Rightarrow> bool" where
  "is_ordered_line l = (ordered_item l \<noteq> None)"

definition codeBlock :: "jsstring \<Rightarrow> jsstring list \<Rightarrow> adf_block" where
  "codeBlock language codeLines =
     CodeBlock (if language = [] then None else Some language)
       [Text (js_join ch_nl codeLines) None]"

definition innerMarkdown :: "jsstring list \<Rightarrow> jsstring" where
  "innerMarkdown lines = js_join ch_nl (map strip_quote_marker (takeWhile is_quote_line lines))"

definition nextLine :: "jsstring list \<Rightarrow> jsstring" where
  "nextLine rest = (case rest of [] \<Rightarrow> [] | l # _ \<Rightarrow> trim l)"

definition lines_size :: "jsstring list \<Rightarrow> nat" where
  "lines_size ls = sum_list (map (\<lambda>l. Suc (length l)) ls)"

text \<open>
  The measure of the block parser: every line counts its length and one more, so that
  the lines of a string weigh one more than the string.
\<close>


lemma js_split_nonempty: "js_split sep s \<noteq> []"
  by (induction s) (auto split: list.splits)

lemma lines_size_Nil: "lines_size [] = 0"
  by (simp add: lines_size_def)

lemma lines_size_Cons: "lines_size (l # ls) = Suc (length l) + lines_size ls"
  by (simp add: lines_size_def)

lemma lines_size_append: "lines_size (xs @ ys) = lines_size xs + lines_size ys"
  by (simp add: lines_size_def)

lemma lines_size_js_split: "lines_size (js_split sep s) = Suc (length s)"
proof (induction s)
  case Nil
  show ?case by (simp add: lines_size_def)
next
  case (Cons c cs)
  then show ?case
    using js_split_nonempty [of sep cs]
    by (auto simp: lines_size_Cons split: list.splits)
qed

lemma lines_size_js_join: "ls \<noteq> [] \<Longrightarrow> Suc (length (js_join sep ls)) = lines_size ls"
  by (induction sep ls rule: js_join.induct) (auto simp: lines_size_Cons lines_size_Nil)

lemma lines_size_dropWhile: "lines_size (dropWhile P ls) \<le> lines_size ls"
  by (induction ls) (auto simp: lines_size_Cons)

lemma lines_size_takeWhile: "lines_size (takeWhile P ls) \<le> lines_size ls"
  by (induction ls) (auto simp: lines_size_Cons lines_size_Nil)

lemma lines_size_drop: "lines_size (drop n ls) \<le> lines_size ls"
proof -
  have "lines_size (take n ls @ drop n ls) = lines_size (take n ls) + lines_size (drop n ls)"
    by (rule lines_size_append)
  then show ?thesis by simp
qed

lemma trimEnd_decomp: "\<exists>w. l = trimEnd l @ w \<and> list_all is_space w"
proof -
  have "rev l = takeWhile is_space (rev l) @ dropWhile is_space (rev l)"
    by simp
  then have "l = rev (dropWhile is_space (rev l)) @ rev (takeWhile is_space (rev l))"
    by (metis rev_append rev_rev_ident)
  moreover have "list_all is_space (rev (takeWhile is_space (rev l)))"
    by (simp add: list_all_iff) (meson set_takeWhileD)
  ultimately show ?thesis
    unfolding trimEnd_def by blast
qed

lemma startsWith_trimEnd: "startsWith (trimEnd l) [c] \<Longrightarrow> startsWith l [c]"
proof -
  assume a: "startsWith (trimEnd l) [c]"
  obtain w where w: "l = trimEnd l @ w" using trimEnd_decomp by blast
  from a obtain t where "trimEnd l = c # t" by (auto dest: startsWith_Cons)
  with w have "l = c # t @ w" by simp
  then show ?thesis by (simp add: startsWith_def)
qed

lemma strip_quote_marker_shorter:
  "is_quote_line l \<Longrightarrow> Suc (length (strip_quote_marker l)) \<le> length l"
proof -
  assume "is_quote_line l"
  then have "startsWith l [ch_gt]"
    unfolding is_quote_line_def is_blockquote_def by (rule startsWith_trimEnd)
  then obtain t where "l = ch_gt # t" by (auto dest: startsWith_Cons)
  then show ?thesis
    by (cases t) (auto simp: strip_quote_marker_def startsWith_def)
qed

lemma lines_size_strip_quote_markers:
  "list_all is_quote_line q \<Longrightarrow>
     lines_size (map strip_quote_marker q) + length q \<le> lines_size q"
proof (induction q)
  case Nil
  show ?case by (simp add: lines_size_Nil)
next
  case (Cons l q)
  then show ?case
    using strip_quote_marker_shorter [of l] by (simp add: lines_size_Cons)
qed

lemma innerMarkdown_shorter:
  assumes "is_quote_line line"
  shows "length (innerMarkdown (line # rest)) + 2 \<le> lines_size (takeWhile is_quote_line (line # rest))"
proof -
  define q where "q = takeWhile is_quote_line (line # rest)"
  have q: "q \<noteq> []" "list_all is_quote_line q"
    using assms by (auto simp: q_def list_all_iff dest: set_takeWhileD)
  then have "1 \<le> length q" by (cases q) auto
  moreover have "Suc (length (innerMarkdown (line # rest))) = lines_size (map strip_quote_marker q)"
    unfolding innerMarkdown_def q_def [symmetric] using q(1) by (simp add: lines_size_js_join)
  moreover have "lines_size (map strip_quote_marker q) + length q \<le> lines_size q"
    using q(2) by (rule lines_size_strip_quote_markers)
  ultimately show ?thesis unfolding q_def by linarith
qed

lemma innerMarkdown_measure:
  assumes "is_blockquote (trimEnd line)"
  shows "2 * length (innerMarkdown (line # rest)) + 3 < 2 * lines_size (line # rest)"
proof -
  have "is_quote_line line" using assms by (simp add: is_quote_line_def)
  then have "length (innerMarkdown (line # rest)) + 2 \<le> lines_size (takeWhile is_quote_line (line # rest))"
    by (rule innerMarkdown_shorter)
  also have "\<dots> \<le> lines_size (line # rest)" by (rule lines_size_takeWhile)
  finally show ?thesis by simp
qed

lemma lines_size_dropWhile_head:
  "P line \<Longrightarrow> lines_size (dropWhile P (line # rest)) < lines_size (line # rest)"
  using lines_size_dropWhile [of P rest] by (simp add: lines_size_Cons)

lemma lines_size_drop_dropWhile:
  "lines_size (drop n (dropWhile P rest)) < lines_size (line # rest)"
  using lines_size_drop [of n "dropWhile P rest"] lines_size_dropWhile [of P rest]
  by (simp add: lines_size_Cons)

lemma lines_size_tail: "lines_size rest < lines_size (line # rest)"
  by (simp add: lines_size_Cons)

text \<open>
  \<open>markdownToAdf\<close> and its \<^verbatim>\<open>while\<close> loop. \<open>block_loop\<close> takes the lines from
  index \<open>i\<close> on (with \<open>line\<close> = \<^verbatim>\<open>lines[i]\<close>), the paragraph buffer and the blocks
  pushed so far, and returns the blocks at the end of the loop, after the last flush. The
  blockquote branch calls \<open>markdownToAdf\<close> itself on the dedented lines.

  These two functions give the value of a call: the document it returns when the call
  stack holds the nested calls. The call stack itself is modelled further down
  (\<open>markdownToAdf_stack\<close>), and \<open>stack_exact\<close> relates the two.
\<close>

function markdownToAdf :: "jsstring \<Rightarrow> adf_document"
  and block_loop :: "jsstring list \<Rightarrow> jsstring list \<Rightarrow> adf_block list \<Rightarrow> adf_block list"
where
  "markdownToAdf markdown =
     (let blocks = block_loop (js_split ch_nl markdown) [] []
      in \<lparr>version = 1, doc_type = ''doc'',
          content = (if blocks = [] then [Paragraph [Text [] None]] else blocks)\<rparr>)"
| "block_loop [] paragraphBuffer blocks = flushParagraph paragraphBuffer blocks"
| "block_loop (line # rest) paragraphBuffer blocks =
     (let trimmed = trimEnd line in
      case code_fence_open trimmed of
        Some language \<Rightarrow>
          block_loop (drop 1 (dropWhile (\<lambda>l. \<not> is_fence_close l) rest)) []
            (flushParagraph paragraphBuffer blocks
               @ [codeBlock language (takeWhile (\<lambda>l. \<not> is_fence_close l) rest)])
      | None \<Rightarrow>
      if is_rule trimmed
      then block_loop rest [] (flushParagraph paragraphBuffer blocks @ [Rule])
      else case heading_match trimmed of
        Some (level, text) \<Rightarrow>
          block_loop rest []
            (flushParagraph paragraphBuffer blocks @ [Heading (min level 6) (parseInline text)])
      | None \<Rightarrow>
      if is_blockquote trimmed
      then block_loop (dropWhile is_quote_line (line # rest)) []
             (flushParagraph paragraphBuffer blocks
                @ [Blockquote (content (markdownToAdf (innerMarkdown (line # rest))))])
      else if is_table_row trimmed \<and> is_separator_row (nextLine rest)
      then block_loop (dropWhile is_table_line (line # rest)) []
             (flushParagraph paragraphBuffer blocks
                @ [parseTableBlock (takeWhile is_table_line (line # rest))])
      else if is_bullet_line line
      then block_loop (dropWhile is_bullet_line (line # rest)) []
             (flushParagraph paragraphBuffer blocks
                @ [BulletList (map (\<lambda>l. listItem (the (bullet_item l)))
                                 (takeWhile is_bullet_line (line # rest)))])
      else if is_ordered_line line
      then block_loop (dropWhile is_ordered_line (line # rest)) []
             (flushParagraph paragraphBuffer blocks
                @ [OrderedList (map (\<lambda>l. listItem (the (ordered_item l)))
                                  (takeWhile is_ordered_line (line # rest)))])
      else if trimmed = []
      then block_loop rest [] (flushParagraph paragraphBuffer blocks)
      else block_loop rest (paragraphBuffer @ [trimmed]) blocks)"
  by pat_completeness auto

termination
proof (relation "measure (\<lambda>x. case x of Inl s \<Rightarrow> 2 * length s + 3
                                   | Inr (ls, buf, blocks) \<Rightarrow> 2 * lines_size ls)",
    goal_cases)
  case 1
  show ?case by simp
next
  case (2 markdown)
  show ?case by (simp add: lines_size_js_split)
next
  case 3
  then show ?case by (simp add: lines_size_tail)
next
  case 4
  then show ?case using innerMarkdown_measure by simp
next
  case 5
  then show ?case
    using lines_size_dropWhile_head [of is_quote_line] by (simp add: is_quote_line_def)
next
  case 6
  then show ?case
    using lines_size_dropWhile_head [of is_table_line] by (simp add: is_table_line_def)
next
  case 7
  then show ?case using lines_size_dropWhile_head [of is_bullet_line] by simp
next
  case 8
  then show ?case using lines_size_dropWhile_head [of is_ordered_line] by simp
next
  case 9
  then show ?case by (simp add: lines_size_tail)
next
  case 10
  then show ?case by (simp add: lines_size_tail)
next
  case 11
  then show ?case by (simp add: lines_size_tail)
next
  case 12
  then show ?case using lines_size_drop_dropWhile by simp
qed


declare markdownToAdf.simps [simp del] block_loop.simps [simp del]

section \<open>The call stack\<close>

text \<open>
  \<open>markdownToAdf s\<close> above is the document that a call returns. Whether a call returns
  depends on the call stack of the JavaScript engine: the source makes one nested call of
  \<open>markdownToAdf\<close> for every level of quoting, with nothing to stop it, and the engine
  throws \<open>RangeError\<close> when its stack is full. The source catches no exception, so the
  error ends the outermost call. \<open>markdownToAdf_stack n\<close> is a call made when the stack
  admits \<open>n\<close> more nested calls of \<open>markdownToAdf\<close>; the number is a parameter, since
  it belongs to the engine and not to the source.
\<close>

datatype js_error = RangeError

function markdownToAdf_stack :: "nat \<Rightarrow> jsstring \<Rightarrow> js_error + adf_document"
  and block_loop_stack ::
    "nat \<Rightarrow> jsstring list \<Rightarrow> jsstring list \<Rightarrow> adf_block list \<Rightarrow> js_error + adf_block list"
where
  "markdownToAdf_stack 0 markdown = Inl RangeError"
| "markdownToAdf_stack (Suc n) markdown =
     (case block_loop_stack n (js_split ch_nl markdown) [] [] of
        Inl e \<Rightarrow> Inl e
      | Inr blocks \<Rightarrow>
          Inr \<lparr>version = 1, doc_type = ''doc'',
               content = (if blocks = [] then [Paragraph [Text [] None]] else blocks)\<rparr>)"
| "block_loop_stack n [] paragraphBuffer blocks = Inr (flushParagraph paragraphBuffer blocks)"
| "block_loop_stack n (line # rest) paragraphBuffer blocks =
     (let trimmed = trimEnd line in
      case code_fence_open trimmed of
        Some language \<Rightarrow>
          block_loop_stack n (drop 1 (dropWhile (\<lambda>l. \<not> is_fence_close l) rest)) []
            (flushParagraph paragraphBuffer blocks
               @ [codeBlock language (takeWhile (\<lambda>l. \<not> is_fence_close l) rest)])
      | None \<Rightarrow>
      if is_rule trimmed
      then block_loop_stack n rest [] (flushParagraph paragraphBuffer blocks @ [Rule])
      else case heading_match trimmed of
        Some (level, text) \<Rightarrow>
          block_loop_stack n rest []
            (flushParagraph paragraphBuffer blocks @ [Heading (min level 6) (parseInline text)])
      | None \<Rightarrow>
      if is_blockquote trimmed
      then (case markdownToAdf_stack n (innerMarkdown (line # rest)) of
              Inl e \<Rightarrow> Inl e
            | Inr innerDoc \<Rightarrow>
                block_loop_stack n (dropWhile is_quote_line (line # rest)) []
                  (flushParagraph paragraphBuffer blocks @ [Blockquote (content innerDoc)]))
      else if is_table_row trimmed \<and> is_separator_row (nextLine rest)
      then block_loop_stack n (dropWhile is_table_line (line # rest)) []
             (flushParagraph paragraphBuffer blocks
                @ [parseTableBlock (takeWhile is_table_line (line # rest))])
      else if is_bullet_line line
      then block_loop_stack n (dropWhile is_bullet_line (line # rest)) []
             (flushParagraph paragraphBuffer blocks
                @ [BulletList (map (\<lambda>l. listItem (the (bullet_item l)))
                                 (takeWhile is_bullet_line (line # rest)))])
      else if is_ordered_line line
      then block_loop_stack n (dropWhile is_ordered_line (line # rest)) []
             (flushParagraph paragraphBuffer blocks
                @ [OrderedList (map (\<lambda>l. listItem (the (ordered_item l)))
                                  (takeWhile is_ordered_line (line # rest)))])
      else if trimmed = []
      then block_loop_stack n rest [] (flushParagraph paragraphBuffer blocks)
      else block_loop_stack n rest (paragraphBuffer @ [trimmed]) blocks)"
  by pat_completeness auto
termination
proof (relation "measure (\<lambda>x. case x of Inl (n, s) \<Rightarrow> 2 * length s + 3
                                   | Inr (n, ls, buf, blocks) \<Rightarrow> 2 * lines_size ls)",
    goal_cases)
  case 1
  show ?case by simp
next
  case 2
  show ?case by (simp add: lines_size_js_split)
next
  case 3
  then show ?case by (simp add: lines_size_tail)
next
  case 4
  then show ?case using innerMarkdown_measure by simp
next
  case 5
  then show ?case
    using lines_size_dropWhile_head [of is_quote_line] by (simp add: is_quote_line_def)
next
  case 6
  then show ?case
    using lines_size_dropWhile_head [of is_table_line] by (simp add: is_table_line_def)
next
  case 7
  then show ?case using lines_size_dropWhile_head [of is_bullet_line] by simp
next
  case 8
  then show ?case using lines_size_dropWhile_head [of is_ordered_line] by simp
next
  case 9
  then show ?case by (simp add: lines_size_tail)
next
  case 10
  then show ?case by (simp add: lines_size_tail)
next
  case 11
  then show ?case by (simp add: lines_size_tail)
next
  case 12
  then show ?case using lines_size_drop_dropWhile by simp
qed

declare markdownToAdf_stack.simps [simp del] block_loop_stack.simps [simp del]

section \<open>The converter without blockquotes\<close>

text \<open>
  The repository holds a second copy of the converter, in TypeScript. Its \<open>parseInline\<close>
  and \<open>parseTableBlock\<close> are those above, statement for statement. Its \<open>markdownToAdf\<close>
  has no blockquote branch, starts a table at every pipe row without looking at the next
  line, and its bullet pattern is \<^verbatim>\<open>/^[\s]*[-*+]\s+/\<close>. The suffix \<open>_ts\<close> marks
  the definitions of that copy.
\<close>

definition is_bullet_marker_ts :: "jschar \<Rightarrow> bool" where
  "is_bullet_marker_ts c = (c = ch_dash \<or> c = ch_star \<or> c = ch_plus)"

definition bullet_item_ts :: "jsstring \<Rightarrow> jsstring option" where
  "bullet_item_ts line =
     (case dropWhile is_space line of
        [] \<Rightarrow> None
      | m # b \<Rightarrow> if is_bullet_marker_ts m \<and> takeWhile is_space b \<noteq> []
                 then Some (dropWhile is_space b) else None)"

definition is_bullet_line_ts :: "jsstring \<Rightarrow> bool" where
  "is_bullet_line_ts l = (bullet_item_ts l \<noteq> None)"

function block_loop_ts ::
  "jsstring list \<Rightarrow> jsstring list \<Rightarrow> adf_block list \<Rightarrow> adf_block list"
where
  "block_loop_ts [] paragraphBuffer blocks = flushParagraph paragraphBuffer blocks"
| "block_loop_ts (line # rest) paragraphBuffer blocks =
     (let trimmed = trimEnd line in
      case code_fence_open trimmed of
        Some language \<Rightarrow>
          block_loop_ts (drop 1 (dropWhile (\<lambda>l. \<not> is_fence_close l) rest)) []
            (flushParagraph paragraphBuffer blocks
               @ [codeBlock language (takeWhile (\<lambda>l. \<not> is_fence_close l) rest)])
      | None \<Rightarrow>
      if is_rule trimmed
      then block_loop_ts rest [] (flushParagraph paragraphBuffer blocks @ [Rule])
      else case heading_match trimmed of
        Some (level, text) \<Rightarrow>
          block_loop_ts rest []
            (flushParagraph paragraphBuffer blocks @ [Heading (min level 6) (parseInline text)])
      | None \<Rightarrow>
      if is_table_row trimmed
      then block_loop_ts (dropWhile is_table_line (line # rest)) []
             (flushParagraph paragraphBuffer blocks
                @ [parseTableBlock (takeWhile is_table_line (line # rest))])
      else if is_bullet_line_ts line
      then block_loop_ts (dropWhile is_bullet_line_ts (line # rest)) []
             (flushParagraph paragraphBuffer blocks
                @ [BulletList (map (\<lambda>l. listItem (the (bullet_item_ts l)))
                                 (takeWhile is_bullet_line_ts (line # rest)))])
      else if is_ordered_line line
      then block_loop_ts (dropWhile is_ordered_line (line # rest)) []
             (flushParagraph paragraphBuffer blocks
                @ [OrderedList (map (\<lambda>l. listItem (the (ordered_item l)))
                                  (takeWhile is_ordered_line (line # rest)))])
      else if trimmed = []
      then block_loop_ts rest [] (flushParagraph paragraphBuffer blocks)
      else block_loop_ts rest (paragraphBuffer @ [trimmed]) blocks)"
  by pat_completeness auto
termination
proof (relation "measure (\<lambda>(ls, buf, blocks). lines_size ls)", goal_cases)
  case 1
  show ?case by simp
next
  case 2
  then show ?case by (simp add: lines_size_tail)
next
  case 3
  then show ?case
    using lines_size_dropWhile_head [of is_table_line] by (simp add: is_table_line_def)
next
  case 4
  then show ?case using lines_size_dropWhile_head [of is_bullet_line_ts] by simp
next
  case 5
  then show ?case using lines_size_dropWhile_head [of is_ordered_line] by simp
next
  case 6
  then show ?case by (simp add: lines_size_tail)
next
  case 7
  then show ?case by (simp add: lines_size_tail)
next
  case 8
  then show ?case by (simp add: lines_size_tail)
next
  case 9
  then show ?case using lines_size_drop_dropWhile by simp
qed

definition markdownToAdf_ts :: "jsstring \<Rightarrow> adf_document" where
  "markdownToAdf_ts markdown =
     (let blocks = block_loop_ts (js_split ch_nl markdown) [] []
      in \<lparr>version = 1, doc_type = ''doc'',
          content = (if blocks = [] then [Paragraph [Text [] None]] else blocks)\<rparr>)"

section \<open>Well-formed documents and nesting depth\<close>

text \<open>
  The depth of blockquote nesting of a block and of a block sequence, and \<open>k\<close>
  blockquotes around a block sequence.
\<close>

fun quote_depth :: "adf_block \<Rightarrow> nat" where
  "quote_depth (Blockquote bs) = Suc (fold max (map quote_depth bs) 0)"
| "quote_depth _ = 0"

definition blocks_depth :: "adf_block list \<Rightarrow> nat" where
  "blocks_depth bs = fold max (map quote_depth bs) 0"

fun nested_quote :: "nat \<Rightarrow> adf_block list \<Rightarrow> adf_block list" where
  "nested_quote 0 bs = bs"
| "nested_quote (Suc k) bs = [Blockquote (nested_quote k bs)]"

text \<open>
  A well-formed document has the fixed envelope and a non-empty content of well-formed
  blocks. Inline containers are non-empty, a marked text node carries exactly one mark, a
  mention's display text is its identifier after \<open>@\<close>, heading levels are 1 to 6, a
  code block holds one unmarked text node, and lists, list items, blockquotes, table rows
  and table cells are non-empty. A table may have no rows: the code emits such a table
  when every line of a run is a separator row.
\<close>

fun wf_inline :: "adf_inline \<Rightarrow> bool" where
  "wf_inline (Text t None) = True"
| "wf_inline (Text t (Some marks)) = (length marks = 1)"
| "wf_inline (Mention ident t accessLevel) = (ident \<noteq> [] \<and> t = ch_at # ident \<and> accessLevel = [])"
| "wf_inline HardBreak = True"

definition wf_inlines :: "adf_inline list \<Rightarrow> bool" where
  "wf_inlines ns = (ns \<noteq> [] \<and> list_all wf_inline ns)"

fun wf_block :: "adf_block \<Rightarrow> bool"
  and wf_listItem :: "adf_listItem \<Rightarrow> bool"
  and wf_tableRow :: "adf_tableRow \<Rightarrow> bool"
  and wf_tableCell :: "adf_tableCell \<Rightarrow> bool"
where
  "wf_block (Heading level c) = (1 \<le> level \<and> level \<le> 6 \<and> wf_inlines c)"
| "wf_block (Paragraph c) = wf_inlines c"
| "wf_block (BulletList items) = (items \<noteq> [] \<and> list_all wf_listItem items)"
| "wf_block (OrderedList items) = (items \<noteq> [] \<and> list_all wf_listItem items)"
| "wf_block (CodeBlock language c) =
     (language \<noteq> Some [] \<and> (case c of [Text t None] \<Rightarrow> True | _ \<Rightarrow> False))"
| "wf_block Rule = True"
| "wf_block (Blockquote bs) = (bs \<noteq> [] \<and> list_all wf_block bs)"
| "wf_block (Table numbered lay rows) =
     (\<not> numbered \<and> lay = ''default'' \<and> list_all wf_tableRow rows)"
| "wf_listItem (ListItem bs) = (bs \<noteq> [] \<and> list_all wf_block bs)"
| "wf_tableRow (TableRow cells) = (cells \<noteq> [] \<and> list_all wf_tableCell cells)"
| "wf_tableCell (TableHeader bs) = (bs \<noteq> [] \<and> list_all wf_block bs)"
| "wf_tableCell (TableCell bs) = (bs \<noteq> [] \<and> list_all wf_block bs)"

definition wf_document :: "adf_document \<Rightarrow> bool" where
  "wf_document d =
     (version d = 1 \<and> doc_type d = ''doc'' \<and> content d \<noteq> [] \<and> list_all wf_block (content d))"

section \<open>Inputs on which the two converters are compared\<close>

text \<open>
  A bullet item whose marker is U+2022: only the blockquote-supporting converter takes it
  for a list item. \<open>table_runs_separated\<close> holds when the first line of every run of
  consecutive pipe rows is immediately followed by a separator row. A plain line is neither a quote line nor
  such a bullet item.
\<close>

definition is_dot_bullet_line :: "jsstring \<Rightarrow> bool" where
  "is_dot_bullet_line l =
     (case dropWhile is_space l of
        [] \<Rightarrow> False
      | m # b \<Rightarrow> m = ch_bullet \<and> takeWhile is_space b \<noteq> [])"

function table_runs_separated :: "jsstring list \<Rightarrow> bool" where
  "table_runs_separated [] = True"
| "table_runs_separated (l # rest) =
     (if is_table_line l
      then is_separator_row (nextLine rest) \<and> table_runs_separated (dropWhile is_table_line rest)
      else table_runs_separated rest)"
  by pat_completeness auto
termination
  by (relation "measure length") (auto intro: le_imp_less_Suc length_dropWhile_le)

definition plain_line :: "jsstring \<Rightarrow> bool" where
  "plain_line l = (\<not> is_quote_line l \<and> \<not> is_dot_bullet_line l)"

declare block_loop_ts.simps [simp del]

section \<open>Single steps of the block parser\<close>

lemmas block_defs = code_fence_open_def is_rule_def heading_match_def is_blockquote_def
  is_table_row_def is_separator_row_def nextLine_def is_bullet_line_def bullet_item_def
  is_ordered_line_def ordered_item_def flushParagraph_def is_fence_close_def is_quote_line_def
  is_table_line_def startsWith_def trimEnd_def trim_def trimStart_def

lemma code_fence_open_Cons: "c \<noteq> ch_backtick \<Longrightarrow> code_fence_open (c # t) = None"
  by (simp add: code_fence_open_def startsWith_def)

lemma is_rule_Cons:
  "c \<noteq> ch_star \<Longrightarrow> c \<noteq> ch_dash \<Longrightarrow> c \<noteq> ch_underscore \<Longrightarrow> \<not> is_rule (c # t)"
  by (simp add: is_rule_def)

lemma heading_match_Cons: "c \<noteq> ch_hash \<Longrightarrow> heading_match (c # t) = None"
  by (simp add: heading_match_def)

lemma is_blockquote_Cons: "is_blockquote (c # t) = (c = ch_gt)"
  by (simp add: is_blockquote_def startsWith_def)

lemma is_table_row_Cons: "c \<noteq> ch_pipe \<Longrightarrow> \<not> is_table_row (c # t)"
  by (simp add: is_table_row_def startsWith_def)

lemma bullet_item_Cons:
  "\<not> is_space c \<Longrightarrow> \<not> is_bullet_marker c \<Longrightarrow> bullet_item (c # t) = None"
  by (simp add: bullet_item_def)

lemma ordered_item_Cons:
  "\<not> is_space c \<Longrightarrow> \<not> is_digit c \<Longrightarrow> ordered_item (c # t) = None"
  by (simp add: ordered_item_def)

lemma trimEnd_Cons_line: "trimEnd line = c # t \<Longrightarrow> \<exists>t'. line = c # t'"
proof -
  assume a: "trimEnd line = c # t"
  obtain w where "line = trimEnd line @ w" using trimEnd_decomp by blast
  with a have "line = c # t @ w" by simp
  then show ?thesis by blast
qed

lemma trimEnd_all_space: "list_all is_space l \<Longrightarrow> trimEnd l = []"
  by (simp add: trimEnd_def list_all_iff)

lemma trimEnd_Nil_iff: "(trimEnd l = []) = list_all is_space l"
  by (auto simp: trimEnd_def list_all_iff dropWhile_eq_Nil_conv)

lemma trimEnd_Nil: "trimEnd [] = []"
  by (simp add: trimEnd_def)

lemma trimEnd_keep: "l \<noteq> [] \<Longrightarrow> \<not> is_space (last l) \<Longrightarrow> trimEnd l = l"
  by (cases l rule: rev_cases) (auto simp: trimEnd_def)

lemma trimEnd_append_space:
  "list_all is_space w \<Longrightarrow> trimEnd (l @ w) = trimEnd l"
  by (simp add: trimEnd_def list_all_iff dropWhile_append)

lemma bullet_item_all_space: "list_all is_space l \<Longrightarrow> bullet_item l = None"
  by (simp add: bullet_item_def list_all_iff dropWhile_eq_Nil_conv [THEN iffD2])

lemma ordered_item_all_space: "list_all is_space l \<Longrightarrow> ordered_item l = None"
  by (simp add: ordered_item_def list_all_iff dropWhile_eq_Nil_conv [THEN iffD2])

lemma block_loop_Nil_Nil: "block_loop [] [] blocks = blocks"
  by (simp add: block_loop.simps flushParagraph_def)

lemma block_loop_blank:
  "list_all is_space line \<Longrightarrow>
     block_loop (line # rest) buf blocks = block_loop rest [] (flushParagraph buf blocks)"
  by (simp add: block_loop.simps trimEnd_all_space bullet_item_all_space ordered_item_all_space
      code_fence_open_def is_rule_def heading_match_def is_blockquote_def is_table_row_def
      startsWith_def is_bullet_line_def is_ordered_line_def)

lemma block_loop_fence:
  "code_fence_open (trimEnd line) = Some language \<Longrightarrow>
     block_loop (line # rest) buf blocks =
       block_loop (drop 1 (dropWhile (\<lambda>l. \<not> is_fence_close l) rest)) []
         (flushParagraph buf blocks
            @ [codeBlock language (takeWhile (\<lambda>l. \<not> is_fence_close l) rest)])"
  by (simp add: block_loop.simps)

lemma is_rule_first:
  "is_rule t \<Longrightarrow> \<exists>c t'. t = c # t' \<and> (c = ch_star \<or> c = ch_dash \<or> c = ch_underscore)"
  by (cases t) (auto simp: is_rule_def)

lemma block_loop_rule:
  "is_rule (trimEnd line) \<Longrightarrow>
     block_loop (line # rest) buf blocks =
       block_loop rest [] (flushParagraph buf blocks @ [Rule])"
proof -
  assume r: "is_rule (trimEnd line)"
  then obtain c t' where "trimEnd line = c # t'" "c = ch_star \<or> c = ch_dash \<or> c = ch_underscore"
    using is_rule_first by blast
  then have "code_fence_open (trimEnd line) = None"
    by (auto simp: code_fence_open_Cons)
  with r show ?thesis by (simp add: block_loop.simps)
qed

lemma block_loop_quote:
  "is_blockquote (trimEnd line) \<Longrightarrow>
     block_loop (line # rest) buf blocks =
       block_loop (dropWhile is_quote_line (line # rest)) []
         (flushParagraph buf blocks
            @ [Blockquote (content (markdownToAdf (innerMarkdown (line # rest))))])"
  by (cases "trimEnd line")
    (simp_all add: block_loop.simps is_blockquote_Cons code_fence_open_Cons is_rule_Cons
      heading_match_Cons is_blockquote_def startsWith_def)

lemma block_loop_pipe_paragraph:
  assumes "is_table_row (trimEnd line)" and "\<not> is_separator_row (nextLine rest)"
  shows "block_loop (line # rest) buf blocks = block_loop rest (buf @ [trimEnd line]) blocks"
proof -
  from assms(1) obtain t where t: "trimEnd line = ch_pipe # t"
    by (cases "trimEnd line") (auto simp: is_table_row_def startsWith_def)
  then obtain t' where l: "line = ch_pipe # t'"
    by (auto dest: trimEnd_Cons_line)
  have "bullet_item line = None" "ordered_item line = None"
    unfolding l by (simp_all add: bullet_item_Cons ordered_item_Cons is_space_def
        is_bullet_marker_def is_digit_def)
  then show ?thesis
    using assms t
    by (simp add: block_loop.simps code_fence_open_Cons is_rule_Cons heading_match_Cons
        is_blockquote_Cons is_bullet_line_def is_ordered_line_def)
qed

section \<open>The document is never empty\<close>

text \<open>
  C1. For every input string the document returned by \<open>markdownToAdf\<close> has a non-empty
  content sequence; when the block scan produces no blocks, the content is a single
  paragraph holding one empty text node.
\<close>

theorem markdownToAdf_content_nonempty:
  "content (markdownToAdf s) \<noteq> []
   \<and> (block_loop (js_split ch_nl s) [] [] = [] \<longrightarrow>
        content (markdownToAdf s) = [Paragraph [Text [] None]])"
  by (simp add: markdownToAdf.simps Let_def)

theorem markdownToAdf_content_nonempty_witness:
  "block_loop (js_split ch_nl []) [] [] = []
   \<and> content (markdownToAdf []) = [Paragraph [Text [] None]]"
  using markdownToAdf_content_nonempty [of "[]"]
  by (simp add: block_loop.simps block_defs)

section \<open>Blank input\<close>

lemma js_split_all_space:
  "list_all is_space s \<Longrightarrow> list_all (list_all is_space) (js_split sep s)"
proof (induction s)
  case Nil
  show ?case by simp
next
  case (Cons c cs)
  then show ?case
    using js_split_nonempty [of sep cs] by (auto split: list.splits)
qed

lemma block_loop_all_blank:
  "list_all (list_all is_space) ls \<Longrightarrow> block_loop ls [] blocks = blocks"
proof (induction ls)
  case Nil
  show ?case by (rule block_loop_Nil_Nil)
next
  case (Cons l ls)
  then show ?case
    by (simp add: block_loop_blank flushParagraph_def)
qed

lemma js_split_no_sep: "sep \<notin> set s \<Longrightarrow> js_split sep s = [s]"
  by (induction s) auto

text \<open>
  C4. \<open>markdownToAdf\<close> applied to the empty string returns a document whose content is
  exactly one paragraph holding exactly one text node with empty text and no marks, and so
  it does for every input made of white space only (no block construct is recognised in
  such an input).
\<close>

theorem markdownToAdf_blank:
  "markdownToAdf [] = \<lparr>version = 1, doc_type = ''doc'', content = [Paragraph [Text [] None]]\<rparr>
   \<and> (\<forall>s. list_all is_space s \<longrightarrow>
          markdownToAdf s =
            \<lparr>version = 1, doc_type = ''doc'', content = [Paragraph [Text [] None]]\<rparr>)"
proof -
  have "markdownToAdf s =
      \<lparr>version = 1, doc_type = ''doc'', content = [Paragraph [Text [] None]]\<rparr>"
    if "list_all is_space s" for s
  proof -
    have "block_loop (js_split ch_nl s) [] [] = []"
      using that by (intro block_loop_all_blank js_split_all_space)
    then show ?thesis by (simp add: markdownToAdf.simps)
  qed
  from this [of "[]"] this show ?thesis by simp
qed

theorem markdownToAdf_blank_witness:
  "list_all is_space (js '' \<newline>  '' @ [0x09, 0x0D, 0x0A, 0xA0])
   \<and> markdownToAdf (js '' \<newline>  '' @ [0x09, 0x0D, 0x0A, 0xA0]) =
       \<lparr>version = 1, doc_type = ''doc'', content = [Paragraph [Text [] None]]\<rparr>"
proof -
  have h: "list_all is_space (js '' \<newline>  '' @ [0x09, 0x0D, 0x0A, 0xA0])"
    by (simp add: js_def is_space_def)
  with markdownToAdf_blank show ?thesis by blast
qed

section \<open>Horizontal rules\<close>

lemma takeWhile_replicate_same: "takeWhile (\<lambda>x. x = c) (replicate n c) = replicate n c"
  by (induction n) auto

lemma dropWhile_replicate_same: "dropWhile (\<lambda>x. x = c) (replicate n c) = []"
  by (induction n) auto

lemma is_rule_replicate:
  assumes "c = ch_star \<or> c = ch_dash \<or> c = ch_underscore" and "3 \<le> n"
  shows "is_rule (replicate n c)"
proof -
  from assms(2) obtain m where m: "n = Suc m" "2 \<le> m"
    by (cases n) auto
  show ?thesis
    using assms(1) m(2)
    by (simp add: m(1) is_rule_def takeWhile_replicate_same dropWhile_replicate_same)
qed

text \<open>
  C9 (amended). For every input that is a single line made of three or more repetitions
  of one character among \<open>*\<close>, \<open>-\<close> and \<open>_\<close>, optionally followed by white space,
  \<open>markdownToAdf\<close> returns a document whose content is a single rule. White space before
  the run is not accepted.
\<close>

theorem markdownToAdf_rule:
  assumes "c = ch_star \<or> c = ch_dash \<or> c = ch_underscore"
    and "3 \<le> n"
    and "list_all is_space ws"
    and "ch_nl \<notin> set ws"
  shows "markdownToAdf (replicate n c @ ws) = \<lparr>version = 1, doc_type = ''doc'', content = [Rule]\<rparr>"
proof -
  have c: "\<not> is_space c" "c \<noteq> ch_nl"
    using assms(1) by (auto simp: is_space_def)
  have "ch_nl \<notin> set (replicate n c @ ws)"
    using c(2) assms(4) by auto
  then have split: "js_split ch_nl (replicate n c @ ws) = [replicate n c @ ws]"
    by (rule js_split_no_sep)
  have "trimEnd (replicate n c @ ws) = trimEnd (replicate n c)"
    using assms(3) by (rule trimEnd_append_space)
  also have "\<dots> = replicate n c"
    using c(1) assms(2) by (intro trimEnd_keep) auto
  finally have "is_rule (trimEnd (replicate n c @ ws))"
    using assms(1,2) by (simp add: is_rule_replicate)
  then have "block_loop [replicate n c @ ws] [] [] = [Rule]"
    by (simp add: block_loop_rule block_loop_Nil_Nil flushParagraph_def)
  then show ?thesis
    by (simp add: markdownToAdf.simps split)
qed

theorem markdownToAdf_rule_witness:
  "(ch_dash = ch_star \<or> ch_dash = ch_dash \<or> ch_dash = ch_underscore) \<and> (3::nat) \<le> 4
   \<and> list_all is_space [0x20, 0x09, 0x0D] \<and> ch_nl \<notin> set [0x20, 0x09, 0x0D :: jschar]
   \<and> markdownToAdf (js ''----'' @ [0x20, 0x09, 0x0D]) =
       \<lparr>version = 1, doc_type = ''doc'', content = [Rule]\<rparr>"
proof -
  have h: "list_all is_space [0x20, 0x09, 0x0D]" "ch_nl \<notin> set [0x20, 0x09, 0x0D :: jschar]"
    by (simp_all add: is_space_def)
  have r: "replicate 4 ch_dash = js ''----''"
    by (simp add: js_def numeral_eq_Suc)
  show ?thesis
    using markdownToAdf_rule [of ch_dash 4 "[0x20, 0x09, 0x0D]"] h
    by (simp add: r)
qed

text \<open>
  With a space before the dashes the line is not a rule: it matches no block pattern and
  becomes a paragraph.
\<close>

theorem rule_leading_space_counterexample:
  "content (markdownToAdf (js '' ---'')) = [Paragraph [Text (js '' ---'') None]]
   \<and> content (markdownToAdf (js '' ---'')) \<noteq> [Rule]"
  by code_simp

section \<open>Pipe rows without a separator row\<close>

lemma trim_Nil_iff: "(trim s = []) = list_all is_space s"
proof
  assume "trim s = []"
  then have a: "list_all is_space (dropWhile is_space s)"
    by (simp add: trim_def trimStart_def trimEnd_Nil_iff)
  have "dropWhile is_space s = []"
  proof (rule ccontr)
    assume n: "dropWhile is_space s \<noteq> []"
    then have "\<not> is_space (hd (dropWhile is_space s))" by (rule hd_dropWhile)
    moreover have "hd (dropWhile is_space s) \<in> set (dropWhile is_space s)"
      using n by simp
    ultimately show False using a by (simp add: list_all_iff)
  qed
  then show "list_all is_space s"
    by (simp add: list_all_iff dropWhile_eq_Nil_conv)
next
  assume "list_all is_space s"
  then have "\<forall>x\<in>set s. is_space x"
    by (simp add: list_all_iff)
  then have d: "dropWhile is_space s = []"
    by (simp only: dropWhile_eq_Nil_conv)
  show "trim s = []"
    unfolding trim_def trimStart_def d by (rule trimEnd_Nil)
qed

lemma flushParagraph_single:
  "\<not> list_all is_space t \<Longrightarrow> flushParagraph [t] blocks = blocks @ [Paragraph (parseInline t)]"
  by (simp add: flushParagraph_def trim_Nil_iff)

text \<open>
  C8. A pipe row that is not immediately followed by a separator row does not start a
  table: the scan appends its right-trimmed text to the paragraph buffer. For an input that
  consists of such a line alone, \<open>markdownToAdf\<close> returns a single paragraph holding the
  inline rendering of that line, and not a table.
\<close>

theorem pipe_row_without_separator:
  "(\<forall>line rest buf blocks.
      is_table_row (trimEnd line) \<and> \<not> is_separator_row (nextLine rest) \<longrightarrow>
      block_loop (line # rest) buf blocks = block_loop rest (buf @ [trimEnd line]) blocks)
   \<and> (\<forall>line.
      ch_nl \<notin> set line \<and> is_table_row (trimEnd line) \<longrightarrow>
      markdownToAdf line =
        \<lparr>version = 1, doc_type = ''doc'',
         content = [Paragraph (parseInline (trimEnd line))]\<rparr>)"
proof (intro conjI allI impI)
  fix line rest buf blocks
  assume "is_table_row (trimEnd line) \<and> \<not> is_separator_row (nextLine rest)"
  then show "block_loop (line # rest) buf blocks = block_loop rest (buf @ [trimEnd line]) blocks"
    by (simp add: block_loop_pipe_paragraph)
next
  fix line
  assume a: "ch_nl \<notin> set line \<and> is_table_row (trimEnd line)"
  then obtain t where t: "trimEnd line = ch_pipe # t"
    by (cases "trimEnd line") (auto simp: is_table_row_def startsWith_def)
  have ns: "\<not> list_all is_space (trimEnd line)"
    by (simp add: t is_space_def)
  have "\<not> is_separator_row (nextLine [])"
    by (simp add: nextLine_def is_separator_row_def)
  with a have "block_loop [line] [] [] = block_loop [] [trimEnd line] []"
    by (simp add: block_loop_pipe_paragraph)
  also have "\<dots> = [Paragraph (parseInline (trimEnd line))]"
    using ns by (simp add: block_loop.simps flushParagraph_single)
  finally show "markdownToAdf line =
        \<lparr>version = 1, doc_type = ''doc'',
         content = [Paragraph (parseInline (trimEnd line))]\<rparr>"
    using a by (simp add: markdownToAdf.simps js_split_no_sep)
qed

theorem pipe_row_without_separator_witness:
  "ch_nl \<notin> set (js ''| A | B |'') \<and> is_table_row (trimEnd (js ''| A | B |''))
   \<and> markdownToAdf (js ''| A | B |'') =
       \<lparr>version = 1, doc_type = ''doc'',
        content = [Paragraph [Text (js ''| A | B |'') None]]\<rparr>"
proof -
  have h: "ch_nl \<notin> set (js ''| A | B |'') \<and> is_table_row (trimEnd (js ''| A | B |''))"
    by code_simp
  have p: "parseInline (trimEnd (js ''| A | B |'')) = [Text (js ''| A | B |'') None]"
    by code_simp
  from pipe_row_without_separator h
  have "markdownToAdf (js ''| A | B |'') =
        \<lparr>version = 1, doc_type = ''doc'',
         content = [Paragraph (parseInline (trimEnd (js ''| A | B |'')))]\<rparr>"
    by blast
  with h p show ?thesis by simp
qed

section \<open>Tables\<close>

lemma table_rows_enumerate:
  "table_rows i ls =
     map (\<lambda>(j, l). TableRow (map (cellNode (j = 0)) (table_cells (trim l))))
       (filter (\<lambda>(j, l). \<not> is_separator_row (trim l)) (enumerate i ls))"
  by (induction ls arbitrary: i) (simp_all add: Let_def)

text \<open>
  C7. The three-line table with header \<open>A\<close>, \<open>B\<close>, a separator row and the data row
  \<open>1\<close>, \<open>2\<close> becomes a single table of two rows: header cells \<open>A\<close> and \<open>B\<close>, then body
  cells \<open>1\<close> and \<open>2\<close>. In general the rows of \<open>parseTableBlock\<close> are those of the lines
  that do not match the separator pattern, in order, and the cells of a row are header
  cells exactly when the row comes from the first line of the run.
\<close>

theorem table_header_separator_rows:
  "markdownToAdf (js ''| A | B |\<newline>|---|---|\<newline>| 1 | 2 |'') =
     \<lparr>version = 1, doc_type = ''doc'',
      content = [Table False ''default''
        [TableRow [TableHeader [Paragraph [Text (js ''A'') None]],
                   TableHeader [Paragraph [Text (js ''B'') None]]],
         TableRow [TableCell [Paragraph [Text (js ''1'') None]],
                   TableCell [Paragraph [Text (js ''2'') None]]]]]\<rparr>
   \<and> parseTableBlock lines =
       Table False ''default''
         (map (\<lambda>(j, l). TableRow (map (cellNode (j = 0)) (table_cells (trim l))))
            (filter (\<lambda>(j, l). \<not> is_separator_row (trim l)) (enumerate 0 lines)))"
proof
  show "markdownToAdf (js ''| A | B |\<newline>|---|---|\<newline>| 1 | 2 |'') =
     \<lparr>version = 1, doc_type = ''doc'',
      content = [Table False ''default''
        [TableRow [TableHeader [Paragraph [Text (js ''A'') None]],
                   TableHeader [Paragraph [Text (js ''B'') None]]],
         TableRow [TableCell [Paragraph [Text (js ''1'') None]],
                   TableCell [Paragraph [Text (js ''2'') None]]]]]\<rparr>"
    by code_simp
  show "parseTableBlock lines =
       Table False ''default''
         (map (\<lambda>(j, l). TableRow (map (cellNode (j = 0)) (table_cells (trim l))))
            (filter (\<lambda>(j, l). \<not> is_separator_row (trim l)) (enumerate 0 lines)))"
    by (simp add: parseTableBlock_def table_rows_enumerate)
qed

section \<open>Fenced code blocks\<close>

lemma js_split_append_sep: "sep \<notin> set l \<Longrightarrow> js_split sep (l @ sep # r) = l # js_split sep r"
  by (induction l) auto

lemma js_split_js_join:
  "ls \<noteq> [] \<Longrightarrow> \<forall>l\<in>set ls. sep \<notin> set l \<Longrightarrow> js_split sep (js_join sep ls) = ls"
  by (induction sep ls rule: js_join.induct)
    (simp_all add: js_split_no_sep js_split_append_sep)

lemma fenced_block_closed:
  assumes "code_fence_open (trimEnd first) = Some language"
    and "list_all (\<lambda>l. \<not> is_fence_close l) body"
    and "is_fence_close c"
  shows "block_loop (first # body @ c # after) buf blocks =
           block_loop after [] (flushParagraph buf blocks @ [codeBlock language body])"
proof -
  have "takeWhile (\<lambda>l. \<not> is_fence_close l) (body @ c # after) = body"
       "dropWhile (\<lambda>l. \<not> is_fence_close l) (body @ c # after) = c # after"
    using assms(2,3) by (simp_all add: list_all_iff takeWhile_append2 dropWhile_append2)
  then show ?thesis
    using assms(1) by (simp add: block_loop_fence)
qed

lemma fenced_block_unclosed:
  assumes "code_fence_open (trimEnd first) = Some language"
    and "list_all (\<lambda>l. \<not> is_fence_close l) body"
  shows "block_loop (first # body) buf blocks =
           flushParagraph buf blocks @ [codeBlock language body]"
proof -
  have tw: "takeWhile (\<lambda>l. \<not> is_fence_close l) body = body"
    and dw: "dropWhile (\<lambda>l. \<not> is_fence_close l) body = []"
    using assms(2) by (simp_all add: list_all_iff)
  show ?thesis
    unfolding block_loop_fence [OF assms(1)] tw dw by (simp add: block_loop_Nil_Nil)
qed

text \<open>
  C6. The input of the three lines \<^verbatim>\<open>```js\<close>, \<^verbatim>\<open>code\<close> and \<^verbatim>\<open>```\<close>
  becomes a single code block with language \<open>js\<close> and one unmarked text node \<open>code\<close>.
  In general, after a line recognised as an opening fence, the lines up to the first line
  that starts with three backticks, or up to the end of the input, are joined unchanged
  into the single text node of the code block, whatever they contain.
\<close>

theorem fenced_code_block_verbatim:
  "markdownToAdf (js ''```js\<newline>code\<newline>```'') =
     \<lparr>version = 1, doc_type = ''doc'',
      content = [CodeBlock (Some (js ''js'')) [Text (js ''code'') None]]\<rparr>
   \<and> (\<forall>first language body closing.
        code_fence_open (trimEnd first) = Some language
        \<and> list_all (\<lambda>l. \<not> is_fence_close l) body
        \<and> (closing = [] \<or> (\<exists>c. closing = [c] \<and> is_fence_close c))
        \<and> (\<forall>l\<in>set (first # body @ closing). ch_nl \<notin> set l)
        \<longrightarrow>
        markdownToAdf (js_join ch_nl (first # body @ closing)) =
          \<lparr>version = 1, doc_type = ''doc'',
           content = [CodeBlock (if language = [] then None else Some language)
                        [Text (js_join ch_nl body) None]]\<rparr>)"
proof (intro conjI allI impI)
  show "markdownToAdf (js ''```js\<newline>code\<newline>```'') =
     \<lparr>version = 1, doc_type = ''doc'',
      content = [CodeBlock (Some (js ''js'')) [Text (js ''code'') None]]\<rparr>"
    by code_simp
next
  fix first language body closing
  assume a: "code_fence_open (trimEnd first) = Some language
        \<and> list_all (\<lambda>l. \<not> is_fence_close l) body
        \<and> (closing = [] \<or> (\<exists>c. closing = [c] \<and> is_fence_close c))
        \<and> (\<forall>l\<in>set (first # body @ closing). ch_nl \<notin> set l)"
  then have split: "js_split ch_nl (js_join ch_nl (first # body @ closing)) = first # body @ closing"
    by (intro js_split_js_join) simp_all
  have "block_loop (first # body @ closing) [] [] = [codeBlock language body]"
  proof (cases "closing = []")
    case True
    then show ?thesis
      using a by (simp add: fenced_block_unclosed flushParagraph_def)
  next
    case False
    with a obtain c where "closing = [c]" "is_fence_close c" by blast
    then show ?thesis
      using a fenced_block_closed [of first language body c "[]" "[]" "[]"]
      by (simp add: block_loop_Nil_Nil flushParagraph_def)
  qed
  then show "markdownToAdf (js_join ch_nl (first # body @ closing)) =
          \<lparr>version = 1, doc_type = ''doc'',
           content = [CodeBlock (if language = [] then None else Some language)
                        [Text (js_join ch_nl body) None]]\<rparr>"
    unfolding markdownToAdf.simps split by (simp add: codeBlock_def)
qed

theorem fenced_code_block_verbatim_witness:
  "code_fence_open (trimEnd (js ''```js  '')) = Some (js ''js'')
   \<and> list_all (\<lambda>l. \<not> is_fence_close l) [js ''a *b*'', js '' **c** `d`'']
   \<and> is_fence_close (js ''```'')
   \<and> list_all (\<lambda>l. ch_nl \<notin> set l) [js ''```js  '', js ''a *b*'', js '' **c** `d`'', js ''```'']
   \<and> markdownToAdf (js ''```js  \<newline>a *b*\<newline> **c** `d`\<newline>```'') =
       \<lparr>version = 1, doc_type = ''doc'',
        content = [CodeBlock (Some (js ''js'')) [Text (js ''a *b*\<newline> **c** `d`'') None]]\<rparr>"
proof -
  have h1: "code_fence_open (trimEnd (js ''```js  '')) = Some (js ''js'')"
    by code_simp
  have h2: "list_all (\<lambda>l. \<not> is_fence_close l) [js ''a *b*'', js '' **c** `d`'']"
    by code_simp
  have h3: "is_fence_close (js ''```'')"
    by code_simp
  have h4: "\<forall>l\<in>set (js ''```js  '' # [js ''a *b*'', js '' **c** `d`''] @ [js ''```'']). ch_nl \<notin> set l"
    by (simp add: js_def)
  have j: "js_join ch_nl (js ''```js  '' # [js ''a *b*'', js '' **c** `d`''] @ [js ''```''])
             = js ''```js  \<newline>a *b*\<newline> **c** `d`\<newline>```''"
    by (simp add: js_def)
  have j2: "js_join ch_nl [js ''a *b*'', js '' **c** `d`''] = js ''a *b*\<newline> **c** `d`''"
    by (simp add: js_def)
  have n: "js ''js'' \<noteq> []" by (simp add: js_def)
  from fenced_code_block_verbatim h1 h2 h3 h4
  have "markdownToAdf (js_join ch_nl (js ''```js  '' # [js ''a *b*'', js '' **c** `d`''] @ [js ''```''])) =
          \<lparr>version = 1, doc_type = ''doc'',
           content = [CodeBlock (if js ''js'' = [] then None else Some (js ''js''))
                        [Text (js_join ch_nl [js ''a *b*'', js '' **c** `d`'']) None]]\<rparr>"
    by blast
  then show ?thesis
    using h1 h2 h3 h4 unfolding j j2 by (simp add: n list_all_iff)
qed

section \<open>Bold before italic\<close>

lemma lazy_span_closing:
  "x \<noteq> [] \<Longrightarrow> \<forall>c\<in>set x. \<not> is_line_terminator c \<and> c \<noteq> ch_star \<Longrightarrow>
     lazy_span [ch_star, ch_star] (x @ [ch_star, ch_star]) = Some (x, [])"
proof (induction x rule: list_nonempty_induct)
  case (single c)
  then show ?case by (simp add: startsWith_def)
next
  case (cons c cs)
  then obtain c' cs' where cs: "cs = c' # cs'" by (cases cs) auto
  with cons.prems have "\<not> startsWith (cs @ [ch_star, ch_star]) [ch_star, ch_star]"
    by (auto simp: startsWith_def)
  with cons show ?case by simp
qed

lemma inline_nodes_Nil: "inline_nodes [] = []"
  by (simp add: inline_nodes.simps)

lemma parseInline_bold_span:
  assumes "x \<noteq> []" and "\<forall>c\<in>set x. \<not> is_line_terminator c \<and> c \<noteq> ch_star"
  shows "parseInline ([ch_star, ch_star] @ x @ [ch_star, ch_star]) = [Text x (Some [Strong])]"
proof -
  have "match_bold ([ch_star, ch_star] @ x @ [ch_star, ch_star]) = Some (MBold x, [])"
    using lazy_span_closing [OF assms] by (simp add: match_bold_def startsWith_def)
  then have "inlineRe_at ([ch_star, ch_star] @ x @ [ch_star, ch_star]) = Some (MBold x, [])"
    by (simp add: inlineRe_at_def)
  then have "inlineRe_exec ([ch_star, ch_star] @ x @ [ch_star, ch_star]) = Some ([], MBold x, [])"
    by simp
  then have "inline_nodes ([ch_star, ch_star] @ x @ [ch_star, ch_star]) = [Text x (Some [Strong])]"
    by (subst inline_nodes.simps) (simp add: inline_nodes_Nil)
  then show ?thesis
    by (simp add: parseInline_def)
qed

text \<open>
  C5. \<open>markdownToAdf\<close> applied to \<^verbatim>\<open>**bold** and *italic*\<close> returns a single
  paragraph of three text nodes: \<open>bold\<close> with the strong mark only, \<open> and \<close> without marks,
  and \<open>italic\<close> with the em mark only. In general, at a scan position where the bold
  pattern matches, its match is the one taken, whether or not the italic pattern matches
  there too; so a span between double asterisks that holds no asterisk and no line
  terminator becomes one strong text node.
\<close>

theorem bold_before_italic:
  "markdownToAdf (js ''**bold** and *italic*'') =
     \<lparr>version = 1, doc_type = ''doc'',
      content = [Paragraph [Text (js ''bold'') (Some [Strong]),
                            Text (js '' and '') None,
                            Text (js ''italic'') (Some [Em])]]\<rparr>
   \<and> (\<forall>t m r. match_bold t = Some (m, r) \<longrightarrow> inlineRe_at t = Some (m, r))
   \<and> (\<forall>x. x \<noteq> [] \<and> (\<forall>c\<in>set x. \<not> is_line_terminator c \<and> c \<noteq> ch_star) \<longrightarrow>
          parseInline ([ch_star, ch_star] @ x @ [ch_star, ch_star]) = [Text x (Some [Strong])])"
proof (intro conjI allI impI)
  show "markdownToAdf (js ''**bold** and *italic*'') =
     \<lparr>version = 1, doc_type = ''doc'',
      content = [Paragraph [Text (js ''bold'') (Some [Strong]),
                            Text (js '' and '') None,
                            Text (js ''italic'') (Some [Em])]]\<rparr>"
    by code_simp
next
  fix t m r
  assume "match_bold t = Some (m, r)"
  then show "inlineRe_at t = Some (m, r)"
    by (simp add: inlineRe_at_def)
next
  fix x :: jsstring
  assume "x \<noteq> [] \<and> (\<forall>c\<in>set x. \<not> is_line_terminator c \<and> c \<noteq> ch_star)"
  then show "parseInline ([ch_star, ch_star] @ x @ [ch_star, ch_star]) = [Text x (Some [Strong])]"
    by (intro parseInline_bold_span) blast+
qed

theorem bold_before_italic_witness:
  "match_bold (js ''**a**'') = Some (MBold (js ''a''), [])
   \<and> match_italic_star (js ''**a**'') = Some (MItalicStar (js ''*a''), js ''*'')
   \<and> inlineRe_at (js ''**a**'') = Some (MBold (js ''a''), [])
   \<and> js ''a'' \<noteq> [] \<and> list_all (\<lambda>c. \<not> is_line_terminator c \<and> c \<noteq> ch_star) (js ''a'')
   \<and> parseInline (js ''**a**'') = [Text (js ''a'') (Some [Strong])]"
proof -
  have b: "match_bold (js ''**a**'') = Some (MBold (js ''a''), [])"
    by code_simp
  have i: "match_italic_star (js ''**a**'') = Some (MItalicStar (js ''*a''), js ''*'')"
    by code_simp
  have x: "js ''a'' \<noteq> [] \<and> (\<forall>c\<in>set (js ''a''). \<not> is_line_terminator c \<and> c \<noteq> ch_star)"
    by (simp add: js_def is_line_terminator_def)
  have e: "[ch_star, ch_star] @ js ''a'' @ [ch_star, ch_star] = js ''**a**''"
    by (simp add: js_def)
  from bold_before_italic b have "inlineRe_at (js ''**a**'') = Some (MBold (js ''a''), [])"
    by blast
  moreover from bold_before_italic x
  have "parseInline ([ch_star, ch_star] @ js ''a'' @ [ch_star, ch_star]) = [Text (js ''a'') (Some [Strong])]"
    by blast
  ultimately show ?thesis
    using b i x unfolding e by (simp add: list_all_iff)
qed

section \<open>Termination and well-formedness\<close>

lemma wf_match_bold: "match_bold t = Some (m, r) \<Longrightarrow> wf_inline (match_node m)"
  by (auto simp: match_bold_def split: if_splits option.splits)

lemma wf_match_italic_star: "match_italic_star t = Some (m, r) \<Longrightarrow> wf_inline (match_node m)"
  by (auto simp: match_italic_star_def split: if_splits option.splits)

lemma wf_match_italic_underscore:
  "match_italic_underscore t = Some (m, r) \<Longrightarrow> wf_inline (match_node m)"
  by (auto simp: match_italic_underscore_def split: if_splits option.splits)

lemma wf_match_code: "match_code t = Some (m, r) \<Longrightarrow> wf_inline (match_node m)"
  by (auto simp: match_code_def Let_def split: if_splits)

lemma wf_match_link: "match_link t = Some (m, r) \<Longrightarrow> wf_inline (match_node m)"
  by (auto simp: match_link_def Let_def split: if_splits)

lemma wf_match_mention: "match_mention t = Some (m, r) \<Longrightarrow> wf_inline (match_node m)"
  by (auto simp: match_mention_def Let_def split: if_splits)

lemma wf_inlineRe_at: "inlineRe_at t = Some (m, r) \<Longrightarrow> wf_inline (match_node m)"
  unfolding inlineRe_at_def
  by (auto split: option.splits
      dest: wf_match_bold wf_match_italic_star wf_match_italic_underscore wf_match_code
        wf_match_link wf_match_mention)

lemma wf_inlineRe_exec: "inlineRe_exec t = Some (pre, m, r) \<Longrightarrow> wf_inline (match_node m)"
proof (induction t arbitrary: pre m r)
  case Nil
  then show ?case by simp
next
  case (Cons c cs)
  then show ?case
    by (fastforce split: option.splits dest: wf_inlineRe_at)
qed

lemma wf_inline_nodes: "list_all wf_inline (inline_nodes t)"
proof (induction t rule: inline_nodes.induct)
  case (1 t)
  show ?case
  proof (cases "inlineRe_exec t")
    case None
    then show ?thesis by (subst inline_nodes.simps) simp
  next
    case (Some a)
    then obtain pre m r where a: "inlineRe_exec t = Some (pre, m, r)"
      by (cases a) auto
    then have "list_all wf_inline (inline_nodes r)" by (rule "1.IH") auto
    with a wf_inlineRe_exec [OF a] show ?thesis
      by (subst inline_nodes.simps) simp
  qed
qed

lemma wf_parseInline: "wf_inlines (parseInline t)"
  using wf_inline_nodes [of t] by (simp add: parseInline_def wf_inlines_def Let_def)

lemma wf_flushParagraph:
  "list_all wf_block blocks \<Longrightarrow> list_all wf_block (flushParagraph buf blocks)"
  by (simp add: flushParagraph_def Let_def wf_parseInline)

lemma wf_codeBlock: "wf_block (codeBlock language codeLines)"
  by (simp add: codeBlock_def)

lemma heading_match_level: "heading_match t = Some (level, text) \<Longrightarrow> 1 \<le> level \<and> level \<le> 6"
  by (auto simp: heading_match_def Let_def split: if_splits)

lemma wf_table_rows: "list_all wf_tableRow (table_rows i ls)"
  by (induction ls arbitrary: i)
    (simp_all add: Let_def table_cells_def js_split_nonempty cellNode_def list_all_iff
      wf_parseInline)

lemma wf_parseTableBlock: "wf_block (parseTableBlock ls)"
  by (simp add: parseTableBlock_def wf_table_rows)

lemma wf_listItem: "wf_listItem (listItem t)"
  by (simp add: listItem_def wf_parseInline)


lemma block_loop_late:
  assumes c: "code_fence_open (trimEnd line) = None"
    and r: "\<not> is_rule (trimEnd line)"
    and h: "heading_match (trimEnd line) = None"
    and q: "\<not> is_blockquote (trimEnd line)"
    and t: "\<not> (is_table_row (trimEnd line) \<and> is_separator_row (nextLine rest))"
  shows "block_loop (line # rest) paragraphBuffer blocks =
      (if is_bullet_line line
      then block_loop (dropWhile is_bullet_line (line # rest)) []
             (flushParagraph paragraphBuffer blocks
                @ [BulletList (map (\<lambda>l. listItem (the (bullet_item l)))
                                 (takeWhile is_bullet_line (line # rest)))])
      else if is_ordered_line line
      then block_loop (dropWhile is_ordered_line (line # rest)) []
             (flushParagraph paragraphBuffer blocks
                @ [OrderedList (map (\<lambda>l. listItem (the (ordered_item l)))
                                  (takeWhile is_ordered_line (line # rest)))])
      else if trimEnd line = []
      then block_loop rest [] (flushParagraph paragraphBuffer blocks)
      else block_loop rest (paragraphBuffer @ [trimEnd line]) blocks)"
  unfolding block_loop.simps(2) [of line rest] Let_def
  by (simp only: c r h q t option.case if_False)


lemma block_loop_heading:
  assumes c: "code_fence_open (trimEnd line) = None"
    and r: "\<not> is_rule (trimEnd line)"
    and h: "heading_match (trimEnd line) = Some (level, body)"
  shows "block_loop (line # rest) paragraphBuffer blocks =
      block_loop rest []
        (flushParagraph paragraphBuffer blocks @ [Heading (min level 6) (parseInline body)])"
  unfolding block_loop.simps(2) [of line rest] Let_def
  by (simp only: c r h option.case if_False prod.case)

lemma block_loop_table:
  assumes c: "code_fence_open (trimEnd line) = None"
    and r: "\<not> is_rule (trimEnd line)"
    and h: "heading_match (trimEnd line) = None"
    and q: "\<not> is_blockquote (trimEnd line)"
    and t: "is_table_row (trimEnd line) \<and> is_separator_row (nextLine rest)"
  shows "block_loop (line # rest) paragraphBuffer blocks =
      block_loop (dropWhile is_table_line (line # rest)) []
        (flushParagraph paragraphBuffer blocks
           @ [parseTableBlock (takeWhile is_table_line (line # rest))])"
  unfolding block_loop.simps(2) [of line rest] Let_def
  by (simp only: c r h q t option.case if_False if_True simp_thms)

lemma wf_items:
  "list_all wf_listItem (map (\<lambda>l. listItem (f l)) ls)"
  by (simp add: list_all_iff wf_listItem)

lemma wf_snoc: "list_all wf_block bs \<Longrightarrow> wf_block b \<Longrightarrow> list_all wf_block (bs @ [b])"
  by simp

lemma wf_markdownToAdf_block_loop:
  "wf_document (markdownToAdf s)"
  "list_all wf_block blocks \<Longrightarrow> list_all wf_block (block_loop ls buf blocks)"
proof (induction s and ls buf blocks rule: markdownToAdf_block_loop.induct)
  case (1 markdown)
  then show ?case
    by (simp add: markdownToAdf.simps wf_document_def Let_def wf_inlines_def)
next
  case (2 paragraphBuffer blocks)
  then show ?case
    by (simp add: block_loop.simps(1) wf_flushParagraph)
next
  case (3 line rest paragraphBuffer blocks)
  note f = wf_flushParagraph [OF "3.prems", of paragraphBuffer]
  show ?case
  proof (cases "code_fence_open (trimEnd line)")
    case (Some language)
    show ?thesis
      unfolding block_loop_fence [OF Some]
      by (rule "3.IH"(10) [OF refl Some]) (rule wf_snoc [OF f wf_codeBlock])
  next
    case None
    note c = None
    show ?thesis
    proof (cases "is_rule (trimEnd line)")
      case True
      show ?thesis
        unfolding block_loop_rule [OF True]
        by (rule "3.IH"(1) [OF refl c True]) (rule wf_snoc [OF f], simp)
    next
      case False
      note r = False
      show ?thesis
      proof (cases "heading_match (trimEnd line)")
        case (Some a)
        then obtain level body where h: "heading_match (trimEnd line) = Some (level, body)"
          by (cases a) auto
        have "wf_block (Heading (min level 6) (parseInline body))"
          using heading_match_level [OF h] by (simp add: wf_parseInline)
        then show ?thesis
          unfolding block_loop_heading [OF c r h]
          by (intro "3.IH"(9) [OF refl c r h refl] wf_snoc [OF f])
      next
        case None
        note h = None
        show ?thesis
        proof (cases "is_blockquote (trimEnd line)")
          case True
          have "wf_document (markdownToAdf (innerMarkdown (line # rest)))"
            by (rule "3.IH"(2) [OF refl c r h True])
          then have "wf_block (Blockquote (content (markdownToAdf (innerMarkdown (line # rest)))))"
            by (simp add: wf_document_def)
          then show ?thesis
            unfolding block_loop_quote [OF True]
            by (intro "3.IH"(3) [OF refl c r h True] wf_snoc [OF f])
        next
          case False
          note q = False
          show ?thesis
          proof (cases "is_table_row (trimEnd line) \<and> is_separator_row (nextLine rest)")
            case True
            show ?thesis
              unfolding block_loop_table [OF c r h q True]
              by (intro "3.IH"(4) [OF refl c r h q True] wf_snoc [OF f] wf_parseTableBlock)
          next
            case False
            note t = False
            show ?thesis
            proof (cases "is_bullet_line line")
              case True
              have "wf_block (BulletList (map (\<lambda>l. listItem (the (bullet_item l)))
                                 (takeWhile is_bullet_line (line # rest))))"
                using True by (simp add: wf_items del: list.map)
              then show ?thesis
                unfolding block_loop_late [OF c r h q t] if_P [OF True]
                by (intro "3.IH"(5) [OF refl c r h q t True] wf_snoc [OF f])
            next
              case False
              note b = False
              show ?thesis
              proof (cases "is_ordered_line line")
                case True
                have "wf_block (OrderedList (map (\<lambda>l. listItem (the (ordered_item l)))
                                  (takeWhile is_ordered_line (line # rest))))"
                  using True by (simp add: wf_items del: list.map)
                then show ?thesis
                  unfolding block_loop_late [OF c r h q t] if_not_P [OF b] if_P [OF True]
                  by (intro "3.IH"(6) [OF refl c r h q t b True] wf_snoc [OF f])
              next
                case False
                note ol = False
                show ?thesis
                proof (cases "trimEnd line = []")
                  case True
                  show ?thesis
                    unfolding block_loop_late [OF c r h q t] if_not_P [OF b] if_not_P [OF ol]
                      if_P [OF True]
                    by (rule "3.IH"(7) [OF refl c r h q t b ol True]) (rule f)
                next
                  case False
                  show ?thesis
                    unfolding block_loop_late [OF c r h q t] if_not_P [OF b] if_not_P [OF ol]
                      if_not_P [OF False]
                    by (rule "3.IH"(8) [OF refl c r h q t b ol False]) (rule "3.prems")
                qed
              qed
            qed
          qed
        qed
      qed
    qed
  qed
qed

section \<open>The outcome of a call under a bounded stack\<close>

lemma block_loop_stack_fence:
  "code_fence_open (trimEnd line) = Some language \<Longrightarrow>
     block_loop_stack n (line # rest) buf blocks =
       block_loop_stack n (drop 1 (dropWhile (\<lambda>l. \<not> is_fence_close l) rest)) []
         (flushParagraph buf blocks
            @ [codeBlock language (takeWhile (\<lambda>l. \<not> is_fence_close l) rest)])"
  by (simp add: block_loop_stack.simps)

lemma block_loop_stack_rule:
  assumes c: "code_fence_open (trimEnd line) = None" and r: "is_rule (trimEnd line)"
  shows "block_loop_stack n (line # rest) buf blocks =
       block_loop_stack n rest [] (flushParagraph buf blocks @ [Rule])"
  unfolding block_loop_stack.simps(2) [of n line rest] Let_def
  by (simp only: c r option.case if_True)

lemma block_loop_stack_heading:
  assumes c: "code_fence_open (trimEnd line) = None"
    and r: "\<not> is_rule (trimEnd line)"
    and h: "heading_match (trimEnd line) = Some (level, body)"
  shows "block_loop_stack n (line # rest) paragraphBuffer blocks =
      block_loop_stack n rest []
        (flushParagraph paragraphBuffer blocks @ [Heading (min level 6) (parseInline body)])"
  unfolding block_loop_stack.simps(2) [of n line rest] Let_def
  by (simp only: c r h option.case if_False prod.case)

lemma block_loop_stack_quote:
  assumes c: "code_fence_open (trimEnd line) = None"
    and r: "\<not> is_rule (trimEnd line)"
    and h: "heading_match (trimEnd line) = None"
    and q: "is_blockquote (trimEnd line)"
  shows "block_loop_stack n (line # rest) paragraphBuffer blocks =
      (case markdownToAdf_stack n (innerMarkdown (line # rest)) of
         Inl e \<Rightarrow> Inl e
       | Inr innerDoc \<Rightarrow>
           block_loop_stack n (dropWhile is_quote_line (line # rest)) []
             (flushParagraph paragraphBuffer blocks @ [Blockquote (content innerDoc)]))"
  unfolding block_loop_stack.simps(2) [of n line rest] Let_def
  by (simp only: c r h q option.case if_False if_True)

lemma block_loop_stack_table:
  assumes c: "code_fence_open (trimEnd line) = None"
    and r: "\<not> is_rule (trimEnd line)"
    and h: "heading_match (trimEnd line) = None"
    and q: "\<not> is_blockquote (trimEnd line)"
    and t: "is_table_row (trimEnd line) \<and> is_separator_row (nextLine rest)"
  shows "block_loop_stack n (line # rest) paragraphBuffer blocks =
      block_loop_stack n (dropWhile is_table_line (line # rest)) []
        (flushParagraph paragraphBuffer blocks
           @ [parseTableBlock (takeWhile is_table_line (line # rest))])"
  unfolding block_loop_stack.simps(2) [of n line rest] Let_def
  by (simp only: c r h q t option.case if_False if_True simp_thms)

lemma block_loop_stack_late:
  assumes c: "code_fence_open (trimEnd line) = None"
    and r: "\<not> is_rule (trimEnd line)"
    and h: "heading_match (trimEnd line) = None"
    and q: "\<not> is_blockquote (trimEnd line)"
    and t: "\<not> (is_table_row (trimEnd line) \<and> is_separator_row (nextLine rest))"
  shows "block_loop_stack n (line # rest) paragraphBuffer blocks =
      (if is_bullet_line line
      then block_loop_stack n (dropWhile is_bullet_line (line # rest)) []
             (flushParagraph paragraphBuffer blocks
                @ [BulletList (map (\<lambda>l. listItem (the (bullet_item l)))
                                 (takeWhile is_bullet_line (line # rest)))])
      else if is_ordered_line line
      then block_loop_stack n (dropWhile is_ordered_line (line # rest)) []
             (flushParagraph paragraphBuffer blocks
                @ [OrderedList (map (\<lambda>l. listItem (the (ordered_item l)))
                                  (takeWhile is_ordered_line (line # rest)))])
      else if trimEnd line = []
      then block_loop_stack n rest [] (flushParagraph paragraphBuffer blocks)
      else block_loop_stack n rest (paragraphBuffer @ [trimEnd line]) blocks)"
  unfolding block_loop_stack.simps(2) [of n line rest] Let_def
  by (simp only: c r h q t option.case if_False)

lemma quote_first_char:
  assumes "is_blockquote t"
  shows "code_fence_open t = None" and "\<not> is_rule t" and "heading_match t = None"
proof -
  from assms obtain t' where "t = ch_gt # t'"
    by (cases t) (auto simp: is_blockquote_def startsWith_def)
  then show "code_fence_open t = None" and "\<not> is_rule t" and "heading_match t = None"
    by (simp_all add: code_fence_open_Cons is_rule_Cons heading_match_Cons)
qed

lemma flushParagraph_append: "flushParagraph buf bl = bl @ flushParagraph buf []"
  by (simp add: flushParagraph_def Let_def)

lemma append_step:
  assumes "\<And>bl. block_loop ls buf bl = block_loop ls' buf' (bl @ new)"
    and "\<forall>bl. block_loop ls' buf' bl = bl @ block_loop ls' buf' []"
  shows "\<forall>bl. block_loop ls buf bl = bl @ block_loop ls buf []"
proof
  fix bl
  have a: "block_loop ls' buf' (bl @ new) = (bl @ new) @ block_loop ls' buf' []"
    using assms(2) by (rule spec)
  have b: "block_loop ls' buf' ([] @ new) = ([] @ new) @ block_loop ls' buf' []"
    using assms(2) by (rule spec)
  show "block_loop ls buf bl = bl @ block_loop ls buf []"
    unfolding assms(1) [of bl] assms(1) [of "[]"] a b by simp
qed

lemma flush_tail_append:
  "flushParagraph pb bl @ new = bl @ (flushParagraph pb [] @ new)"
  by (subst flushParagraph_append) simp

lemma append_step_flush:
  assumes "\<And>bl. block_loop ls buf bl = block_loop ls' buf' (flushParagraph pb bl @ new)"
    and "\<forall>bl. block_loop ls' buf' bl = bl @ block_loop ls' buf' []"
  shows "\<forall>bl. block_loop ls buf bl = bl @ block_loop ls buf []"
proof (rule append_step [OF _ assms(2)])
  fix bl
  show "block_loop ls buf bl = block_loop ls' buf' (bl @ (flushParagraph pb [] @ new))"
    by (simp only: assms(1) [of bl] flush_tail_append [of pb bl new])
qed

lemma block_loop_append_aux:
  fixes s :: jsstring and blocks :: "adf_block list"
  shows "s = s" and "\<forall>bl. block_loop ls buf bl = bl @ block_loop ls buf []"
proof (induct s and ls buf blocks rule: markdownToAdf_block_loop.induct)
  case (1 markdown)
  show ?case by simp
next
  case (2 paragraphBuffer blocks)
  show ?case
    unfolding block_loop.simps(1) by (rule allI) (rule flushParagraph_append)
next
  case (3 line rest paragraphBuffer blocks)
  show ?case
  proof (cases "code_fence_open (trimEnd line)")
    case (Some language)
    show ?thesis
      by (rule append_step_flush [OF block_loop_fence [OF Some] "3.hyps"(10) [OF refl Some]])
  next
    case None
    note c = None
    show ?thesis
    proof (cases "is_rule (trimEnd line)")
      case True
      show ?thesis
        by (rule append_step_flush [OF block_loop_rule [OF True] "3.hyps"(1) [OF refl c True]])
    next
      case False
      note r = False
      show ?thesis
      proof (cases "heading_match (trimEnd line)")
        case (Some a)
        then obtain level body where h: "heading_match (trimEnd line) = Some (level, body)"
          by (cases a) auto
        show ?thesis
          by (rule append_step_flush
              [OF block_loop_heading [OF c r h] "3.hyps"(9) [OF refl c r h refl]])
      next
        case None
        note h = None
        show ?thesis
        proof (cases "is_blockquote (trimEnd line)")
          case True
          show ?thesis
            by (rule append_step_flush
                [OF block_loop_quote [OF True] "3.hyps"(3) [OF refl c r h True]])
        next
          case False
          note q = False
          show ?thesis
          proof (cases "is_table_row (trimEnd line) \<and> is_separator_row (nextLine rest)")
            case True
            show ?thesis
              by (rule append_step_flush
                  [OF block_loop_table [OF c r h q True] "3.hyps"(4) [OF refl c r h q True]])
          next
            case False
            note t = False
            note late = block_loop_late [OF c r h q t]
            show ?thesis
            proof (cases "is_bullet_line line")
              case True
              show ?thesis
                by (rule append_step_flush [OF _ "3.hyps"(5) [OF refl c r h q t True]])
                  (simp only: late if_P [OF True])
            next
              case False
              note b = False
              show ?thesis
              proof (cases "is_ordered_line line")
                case True
                show ?thesis
                  by (rule append_step_flush [OF _ "3.hyps"(6) [OF refl c r h q t b True]])
                    (simp only: late if_not_P [OF b] if_P [OF True])
              next
                case False
                note ol = False
                show ?thesis
                proof (cases "trimEnd line = []")
                  case True
                  show ?thesis
                    by (rule append_step_flush [where new = "[]",
                          OF _ "3.hyps"(7) [OF refl c r h q t b ol True]])
                      (simp only: late if_not_P [OF b] if_not_P [OF ol] if_P [OF True]
                        append_Nil2)
                next
                  case False
                  show ?thesis
                    by (rule append_step [where new = "[]",
                          OF _ "3.hyps"(8) [OF refl c r h q t b ol False]])
                      (simp only: late if_not_P [OF b] if_not_P [OF ol] if_not_P [OF False]
                        append_Nil2)
                qed
              qed
            qed
          qed
        qed
      qed
    qed
  qed
qed

lemma block_loop_append: "block_loop ls buf bl = bl @ block_loop ls buf []"
  using block_loop_append_aux(2) by blast

lemma fold_max_init: "fold max xs (a::nat) = max a (fold max xs 0)"
proof (induction xs arbitrary: a)
  case Nil
  show ?case by simp
next
  case (Cons x xs)
  show ?case
    using Cons [of "max x a"] Cons [of "max x 0"] by simp
qed

lemma blocks_depth_Nil: "blocks_depth [] = 0"
  by (simp add: blocks_depth_def)

lemma blocks_depth_Cons: "blocks_depth (b # bs) = max (quote_depth b) (blocks_depth bs)"
  unfolding blocks_depth_def using fold_max_init [of "map quote_depth bs" "quote_depth b"]
  by simp

lemma blocks_depth_append: "blocks_depth (xs @ ys) = max (blocks_depth xs) (blocks_depth ys)"
  by (induction xs) (simp_all add: blocks_depth_Nil blocks_depth_Cons)

lemma blocks_depth_flushParagraph: "blocks_depth (flushParagraph pb []) = 0"
  by (simp add: flushParagraph_def Let_def blocks_depth_Nil blocks_depth_Cons)

lemma blocks_depth_Blockquote: "blocks_depth [Blockquote bs] = Suc (blocks_depth bs)"
  by (simp add: blocks_depth_def)

lemma stack_step:
  assumes tot: "\<And>bl. block_loop ls buf bl = block_loop ls' buf' (flushParagraph pb bl @ new)"
    and stk: "block_loop_stack n ls buf blocks =
                block_loop_stack n ls' buf' (flushParagraph pb blocks @ new)"
    and d: "blocks_depth new = 0"
    and IH: "block_loop_stack n ls' buf' (flushParagraph pb blocks @ new) =
       (if blocks_depth (block_loop ls' buf' []) \<le> n
        then Inr (block_loop ls' buf' (flushParagraph pb blocks @ new)) else Inl RangeError)"
  shows "block_loop_stack n ls buf blocks =
       (if blocks_depth (block_loop ls buf []) \<le> n
        then Inr (block_loop ls buf blocks) else Inl RangeError)"
proof -
  have "block_loop ls buf [] = (flushParagraph pb [] @ new) @ block_loop ls' buf' []"
    unfolding tot [of "[]"] by (rule block_loop_append)
  then have "blocks_depth (block_loop ls buf []) = blocks_depth (block_loop ls' buf' [])"
    by (simp add: blocks_depth_append blocks_depth_flushParagraph d)
  then show ?thesis
    unfolding stk IH tot [of blocks] by simp
qed

lemma markdownToAdf_depth:
  "blocks_depth (content (markdownToAdf s)) = blocks_depth (block_loop (js_split ch_nl s) [] [])"
  by (simp add: markdownToAdf.simps Let_def blocks_depth_Nil blocks_depth_Cons)

lemma stack_exact:
  "markdownToAdf_stack n s =
     (if blocks_depth (content (markdownToAdf s)) < n
      then Inr (markdownToAdf s) else Inl RangeError)"
  "block_loop_stack n ls buf blocks =
     (if blocks_depth (block_loop ls buf []) \<le> n
      then Inr (block_loop ls buf blocks) else Inl RangeError)"
proof (induction n s and n ls buf blocks rule: markdownToAdf_stack_block_loop_stack.induct)
  case (1 markdown)
  show ?case by (simp add: markdownToAdf_stack.simps)
next
  case (2 n markdown)
  show ?case
    unfolding markdownToAdf_stack.simps(2) "2.IH" markdownToAdf_depth
    by (simp add: markdownToAdf.simps Let_def less_Suc_eq_le)
next
  case (3 n paragraphBuffer blocks)
  show ?case
    by (simp add: block_loop_stack.simps(1) block_loop.simps(1) blocks_depth_flushParagraph)
next
  case (4 n line rest paragraphBuffer blocks)
  show ?case
  proof (cases "code_fence_open (trimEnd line)")
    case (Some language)
    show ?thesis
      by (rule stack_step [OF block_loop_fence [OF Some] block_loop_stack_fence [OF Some] _
            "4.IH"(10) [OF refl Some]])
        (simp add: blocks_depth_Cons blocks_depth_Nil codeBlock_def)
  next
    case None
    note c = None
    show ?thesis
    proof (cases "is_rule (trimEnd line)")
      case True
      show ?thesis
        by (rule stack_step [OF block_loop_rule [OF True] block_loop_stack_rule [OF c True] _
              "4.IH"(1) [OF refl c True]])
          (simp add: blocks_depth_Cons blocks_depth_Nil)
    next
      case False
      note r = False
      show ?thesis
      proof (cases "heading_match (trimEnd line)")
        case (Some a)
        then obtain level body where h: "heading_match (trimEnd line) = Some (level, body)"
          by (cases a) auto
        show ?thesis
          by (rule stack_step [OF block_loop_heading [OF c r h]
                block_loop_stack_heading [OF c r h] _ "4.IH"(9) [OF refl c r h refl]])
            (simp add: blocks_depth_Cons blocks_depth_Nil)
      next
        case None
        note h = None
        show ?thesis
        proof (cases "is_blockquote (trimEnd line)")
          case True
          note qt = True
          let ?inner = "innerMarkdown (line # rest)"
          let ?rest = "dropWhile is_quote_line (line # rest)"
          note P = "4.IH"(2) [OF refl c r h qt]
          note stk = block_loop_stack_quote [OF c r h qt]
          note tot = block_loop_quote [OF qt]
          have "block_loop (line # rest) paragraphBuffer [] =
              (flushParagraph paragraphBuffer [] @ [Blockquote (content (markdownToAdf ?inner))])
                @ block_loop ?rest [] []"
            unfolding tot [of rest paragraphBuffer "[]"] by (rule block_loop_append)
          then have dep: "blocks_depth (block_loop (line # rest) paragraphBuffer []) =
              max (Suc (blocks_depth (content (markdownToAdf ?inner))))
                (blocks_depth (block_loop ?rest [] []))"
            by (simp only: blocks_depth_append blocks_depth_flushParagraph
                blocks_depth_Blockquote max_0L)
          show ?thesis
          proof (cases "blocks_depth (content (markdownToAdf ?inner)) < n")
            case True
            then have s: "markdownToAdf_stack n ?inner = Inr (markdownToAdf ?inner)"
              unfolding P by (simp only: if_True)
            note Q = "4.IH"(3) [OF refl c r h qt s]
            have m: "(max (Suc (blocks_depth (content (markdownToAdf ?inner)))) y \<le> n) = (y \<le> n)"
              for y using True by simp
            show ?thesis
              unfolding stk [of n rest paragraphBuffer blocks] s sum.case Q dep
                tot [of rest paragraphBuffer blocks] m ..
          next
            case False
            then have s: "markdownToAdf_stack n ?inner = Inl RangeError"
              unfolding P by (simp only: if_False)
            have m: "\<not> max (Suc (blocks_depth (content (markdownToAdf ?inner)))) y \<le> n"
              for y using False by simp
            show ?thesis
              unfolding stk [of n rest paragraphBuffer blocks] s sum.case dep
              by (simp only: m if_False)
          qed
        next
          case False
          note q = False
          show ?thesis
          proof (cases "is_table_row (trimEnd line) \<and> is_separator_row (nextLine rest)")
            case True
            show ?thesis
              by (rule stack_step [OF block_loop_table [OF c r h q True]
                    block_loop_stack_table [OF c r h q True] _ "4.IH"(4) [OF refl c r h q True]])
                (simp add: blocks_depth_Cons blocks_depth_Nil parseTableBlock_def)
          next
            case False
            note t = False
            note late = block_loop_late [OF c r h q t]
            note slate = block_loop_stack_late [OF c r h q t]
            show ?thesis
            proof (cases "is_bullet_line line")
              case True
              show ?thesis
              proof (rule stack_step [OF _ _ _ "4.IH"(5) [OF refl c r h q t True]])
                show "block_loop (line # rest) paragraphBuffer bl =
                    block_loop (dropWhile is_bullet_line (line # rest)) []
                      (flushParagraph paragraphBuffer bl
                        @ [BulletList (map (\<lambda>l. listItem (the (bullet_item l)))
                                 (takeWhile is_bullet_line (line # rest)))])" for bl
                  by (simp only: late if_P [OF True])
                show "block_loop_stack n (line # rest) paragraphBuffer blocks =
                    block_loop_stack n (dropWhile is_bullet_line (line # rest)) []
                      (flushParagraph paragraphBuffer blocks
                        @ [BulletList (map (\<lambda>l. listItem (the (bullet_item l)))
                                 (takeWhile is_bullet_line (line # rest)))])"
                  by (simp only: slate if_P [OF True])
                show "blocks_depth [BulletList (map (\<lambda>l. listItem (the (bullet_item l)))
                                 (takeWhile is_bullet_line (line # rest)))] = 0"
                  by (simp add: blocks_depth_def)
              qed
            next
              case False
              note b = False
              show ?thesis
              proof (cases "is_ordered_line line")
                case True
                show ?thesis
                proof (rule stack_step [OF _ _ _ "4.IH"(6) [OF refl c r h q t b True]])
                  show "block_loop (line # rest) paragraphBuffer bl =
                      block_loop (dropWhile is_ordered_line (line # rest)) []
                        (flushParagraph paragraphBuffer bl
                          @ [OrderedList (map (\<lambda>l. listItem (the (ordered_item l)))
                                   (takeWhile is_ordered_line (line # rest)))])" for bl
                    by (simp only: late if_not_P [OF b] if_P [OF True])
                  show "block_loop_stack n (line # rest) paragraphBuffer blocks =
                      block_loop_stack n (dropWhile is_ordered_line (line # rest)) []
                        (flushParagraph paragraphBuffer blocks
                          @ [OrderedList (map (\<lambda>l. listItem (the (ordered_item l)))
                                   (takeWhile is_ordered_line (line # rest)))])"
                    by (simp only: slate if_not_P [OF b] if_P [OF True])
                  show "blocks_depth [OrderedList (map (\<lambda>l. listItem (the (ordered_item l)))
                                   (takeWhile is_ordered_line (line # rest)))] = 0"
                    by (simp add: blocks_depth_def)
                qed
              next
                case False
                note ol = False
                show ?thesis
                proof (cases "trimEnd line = []")
                  case True
                  note Q = "4.IH"(7) [OF refl c r h q t b ol True]
                  show ?thesis
                  proof (rule stack_step [where new = "[]" and pb = paragraphBuffer])
                    show "block_loop (line # rest) paragraphBuffer bl =
                        block_loop rest [] (flushParagraph paragraphBuffer bl @ [])" for bl
                      by (simp only: late if_not_P [OF b] if_not_P [OF ol] if_P [OF True]
                          append_Nil2)
                    show "block_loop_stack n (line # rest) paragraphBuffer blocks =
                        block_loop_stack n rest [] (flushParagraph paragraphBuffer blocks @ [])"
                      by (simp only: slate if_not_P [OF b] if_not_P [OF ol] if_P [OF True]
                          append_Nil2)
                    show "blocks_depth [] = 0" by (rule blocks_depth_Nil)
                    show "block_loop_stack n rest [] (flushParagraph paragraphBuffer blocks @ []) =
                        (if blocks_depth (block_loop rest [] []) \<le> n
                         then Inr (block_loop rest [] (flushParagraph paragraphBuffer blocks @ []))
                         else Inl RangeError)"
                      using Q by (simp only: append_Nil2)
                  qed
                next
                  case False
                  note Q = "4.IH"(8) [OF refl c r h q t b ol False]
                  have e: "flushParagraph [] bl @ [] = bl" for bl :: "adf_block list"
                    by (simp add: flushParagraph_def)
                  show ?thesis
                  proof (rule stack_step [where new = "[]" and pb = "[]"])
                    show "block_loop (line # rest) paragraphBuffer bl =
                        block_loop rest (paragraphBuffer @ [trimEnd line])
                          (flushParagraph [] bl @ [])" for bl
                      by (simp only: late if_not_P [OF b] if_not_P [OF ol] if_not_P [OF False] e)
                    show "block_loop_stack n (line # rest) paragraphBuffer blocks =
                        block_loop_stack n rest (paragraphBuffer @ [trimEnd line])
                          (flushParagraph [] blocks @ [])"
                      by (simp only: slate if_not_P [OF b] if_not_P [OF ol] if_not_P [OF False] e)
                    show "blocks_depth [] = 0" by (rule blocks_depth_Nil)
                    show "block_loop_stack n rest (paragraphBuffer @ [trimEnd line])
                          (flushParagraph [] blocks @ []) =
                        (if blocks_depth (block_loop rest (paragraphBuffer @ [trimEnd line]) []) \<le> n
                         then Inr (block_loop rest (paragraphBuffer @ [trimEnd line])
                                (flushParagraph [] blocks @ []))
                         else Inl RangeError)"
                      using Q by (simp only: e)
                  qed
                qed
              qed
            qed
          qed
        qed
      qed
    qed
  qed
qed

lemma empty_table_example:
  "content (markdownToAdf (js ''|---|\<newline>|---|'')) = [Table False ''default'' []]"
  by code_simp

lemma innerMarkdown_lt_quote_run:
  assumes "is_blockquote (trimEnd line)"
  shows "length (innerMarkdown (line # rest))
           < length (js_join ch_nl (takeWhile is_quote_line (line # rest)))"
proof -
  define q where "q = takeWhile is_quote_line (line # rest)"
  have ql: "is_quote_line line" using assms by (simp add: is_quote_line_def)
  then have "q \<noteq> []" by (simp add: q_def)
  then have j: "Suc (length (js_join ch_nl q)) = lines_size q"
    by (rule lines_size_js_join)
  have "length (innerMarkdown (line # rest)) + 2 \<le> lines_size q"
    unfolding q_def using ql by (rule innerMarkdown_shorter)
  with j show ?thesis unfolding q_def by linarith
qed

text \<open>
  C2 (amended). A call of \<open>markdownToAdf\<close> terminates on every input, with one of two
  outcomes. When the blockquote nesting of the input is less than the number of nested
  calls that the call stack admits, it returns the document, and that document is well
  formed (a table may have no rows); otherwise it throws \<open>RangeError\<close>. Where a
  blockquote is recognised, the recursive call is made on the dedented quote lines, a text
  strictly shorter than the quote lines it was taken from.
\<close>

theorem markdownToAdf_stack_total_wf:
  "markdownToAdf_stack n s =
     (if blocks_depth (content (markdownToAdf s)) < n
      then Inr (markdownToAdf s) else Inl RangeError)
   \<and> wf_document (markdownToAdf s)
   \<and> (\<forall>line rest buf blocks.
        is_blockquote (trimEnd line) \<longrightarrow>
        block_loop_stack n (line # rest) buf blocks =
          (case markdownToAdf_stack n (innerMarkdown (line # rest)) of
             Inl e \<Rightarrow> Inl e
           | Inr innerDoc \<Rightarrow>
               block_loop_stack n (dropWhile is_quote_line (line # rest)) []
                 (flushParagraph buf blocks @ [Blockquote (content innerDoc)]))
        \<and> length (innerMarkdown (line # rest))
            < length (js_join ch_nl (takeWhile is_quote_line (line # rest))))"
proof (intro conjI allI impI)
  show "markdownToAdf_stack n s =
     (if blocks_depth (content (markdownToAdf s)) < n
      then Inr (markdownToAdf s) else Inl RangeError)"
    by (rule stack_exact(1))
  show "wf_document (markdownToAdf s)"
    by (rule wf_markdownToAdf_block_loop(1))
next
  fix line rest buf blocks
  assume q: "is_blockquote (trimEnd line)"
  show "block_loop_stack n (line # rest) buf blocks =
          (case markdownToAdf_stack n (innerMarkdown (line # rest)) of
             Inl e \<Rightarrow> Inl e
           | Inr innerDoc \<Rightarrow>
               block_loop_stack n (dropWhile is_quote_line (line # rest)) []
                 (flushParagraph buf blocks @ [Blockquote (content innerDoc)]))"
    by (rule block_loop_stack_quote [OF quote_first_char [OF q] q])
  show "length (innerMarkdown (line # rest))
            < length (js_join ch_nl (takeWhile is_quote_line (line # rest)))"
    using q by (rule innerMarkdown_lt_quote_run)
qed

theorem markdownToAdf_stack_total_wf_witness:
  "markdownToAdf_stack 3 (js ''x\<newline>> a\<newline>> > b'') = Inr (markdownToAdf (js ''x\<newline>> a\<newline>> > b''))
   \<and> markdownToAdf_stack 2 (js ''x\<newline>> a\<newline>> > b'') = Inl RangeError
   \<and> blocks_depth (content (markdownToAdf (js ''x\<newline>> a\<newline>> > b''))) = 2
   \<and> wf_document (markdownToAdf (js ''x\<newline>> a\<newline>> > b''))
   \<and> is_blockquote (trimEnd (js ''> a''))
   \<and> innerMarkdown (js ''> a'' # [js ''> > b'']) = js ''a\<newline>> b''
   \<and> length (innerMarkdown (js ''> a'' # [js ''> > b'']))
        < length (js_join ch_nl (takeWhile is_quote_line (js ''> a'' # [js ''> > b''])))"
proof -
  have d: "blocks_depth (content (markdownToAdf (js ''x\<newline>> a\<newline>> > b''))) = 2"
    by code_simp
  have h: "is_blockquote (trimEnd (js ''> a''))"
    by code_simp
  have i: "innerMarkdown (js ''> a'' # [js ''> > b'']) = js ''a\<newline>> b''"
    by code_simp
  note t3 = markdownToAdf_stack_total_wf [of 3 "js ''x\<newline>> a\<newline>> > b''"]
  note t2 = markdownToAdf_stack_total_wf [of 2 "js ''x\<newline>> a\<newline>> > b''"]
  have a: "markdownToAdf_stack 3 (js ''x\<newline>> a\<newline>> > b'') = Inr (markdownToAdf (js ''x\<newline>> a\<newline>> > b''))"
    unfolding t3 [THEN conjunct1] d by simp
  have b: "markdownToAdf_stack 2 (js ''x\<newline>> a\<newline>> > b'') = Inl RangeError"
    unfolding t2 [THEN conjunct1] d by simp
  have w: "wf_document (markdownToAdf (js ''x\<newline>> a\<newline>> > b''))"
    by (rule t3 [THEN conjunct2, THEN conjunct1])
  have l: "length (innerMarkdown (js ''> a'' # [js ''> > b'']))
        < length (js_join ch_nl (takeWhile is_quote_line (js ''> a'' # [js ''> > b''])))"
    by (rule t3 [THEN conjunct2, THEN conjunct2, rule_format, OF h, THEN conjunct2])
  from a b d w h i l show ?thesis by (intro conjI)
qed

section \<open>Nesting depth\<close>

lemma last_nested_input: "last (replicate k ch_gt @ js ''a'') = 0x61"
  by (simp add: js_def)

lemma nested_input_line:
  "js_split ch_nl (replicate k ch_gt @ js ''a'') = [replicate k ch_gt @ js ''a'']"
  by (rule js_split_no_sep) (auto simp: js_def)

lemma trimEnd_nested_input:
  "trimEnd (replicate k ch_gt @ js ''a'') = replicate k ch_gt @ js ''a''"
  by (rule trimEnd_keep) (simp_all add: js_def is_space_def)

lemma strip_nested_input:
  "strip_quote_marker (replicate (Suc k) ch_gt @ js ''a'') = replicate k ch_gt @ js ''a''"
  by (cases k) (simp_all add: strip_quote_marker_def startsWith_def js_def is_space_def)

lemma block_loop_nested_input:
  "block_loop [replicate (Suc k) ch_gt @ js ''a''] [] [] =
     [Blockquote (content (markdownToAdf (replicate k ch_gt @ js ''a'')))]"
proof -
  let ?l = "replicate (Suc k) ch_gt @ js ''a''"
  have t: "trimEnd ?l = ?l" by (rule trimEnd_nested_input)
  have q: "is_blockquote (trimEnd ?l)"
    unfolding t by (simp add: is_blockquote_def startsWith_def)
  then have ql: "is_quote_line ?l" by (simp add: is_quote_line_def)
  have i: "innerMarkdown [?l] = replicate k ch_gt @ js ''a''"
    using ql strip_nested_input [of k] by (simp add: innerMarkdown_def)
  have d: "dropWhile is_quote_line [?l] = []"
    using ql by simp
  show ?thesis
    unfolding block_loop_quote [OF q] i d
    by (simp add: block_loop_Nil_Nil flushParagraph_def)
qed

lemma markdownToAdf_nested_input:
  "markdownToAdf (replicate k ch_gt @ js ''a'') =
     \<lparr>version = 1, doc_type = ''doc'',
      content = nested_quote k [Paragraph [Text (js ''a'') None]]\<rparr>"
proof (induction k)
  case 0
  show ?case by code_simp
next
  case (Suc k)
  have "block_loop (js_split ch_nl (replicate (Suc k) ch_gt @ js ''a'')) [] [] =
      [Blockquote (nested_quote k [Paragraph [Text (js ''a'') None]])]"
    unfolding nested_input_line block_loop_nested_input Suc.IH by simp
  then show ?case
    unfolding markdownToAdf.simps [of "replicate (Suc k) ch_gt @ js ''a''"] by simp
qed

lemma quote_depth_nested:
  "fold max (map quote_depth (nested_quote k [Paragraph [Text (js ''a'') None]])) 0 = k"
  by (induction k) simp_all

text \<open>
  C2 as stated promises a document for every input. Whatever number of nested calls
  the call stack admits, the input of that many quote markers before \<open>a\<close> overflows it.
\<close>

theorem stack_overflow_counterexample:
  "markdownToAdf_stack 3 (js ''>>>a'') = Inl RangeError
   \<and> (\<forall>n. markdownToAdf_stack n (replicate n ch_gt @ js ''a'') = Inl RangeError)"
proof
  have e: "js ''>>>a'' = replicate 3 ch_gt @ js ''a''"
    by (simp add: js_def numeral_eq_Suc)
  show "markdownToAdf_stack 3 (js ''>>>a'') = Inl RangeError"
    unfolding e stack_exact(1) markdownToAdf_nested_input
    by (simp add: blocks_depth_def quote_depth_nested)
  show "\<forall>n. markdownToAdf_stack n (replicate n ch_gt @ js ''a'') = Inl RangeError"
    unfolding stack_exact(1) markdownToAdf_nested_input
    by (simp add: blocks_depth_def quote_depth_nested)
qed

lemma markdownToAdf_stack_nested_input:
  "markdownToAdf_stack n (replicate k ch_gt @ js ''a'') =
     (if k < n
      then Inr \<lparr>version = 1, doc_type = ''doc'',
                content = nested_quote k [Paragraph [Text (js ''a'') None]]\<rparr>
      else Inl RangeError)"
  unfolding stack_exact(1) markdownToAdf_nested_input
  by (simp add: blocks_depth_def quote_depth_nested)

text \<open>
  C3 (amended). \<open>markdownToAdf\<close> has no maximum nesting depth of its own and no distinct
  error for deep nesting. The input of \<open>k\<close> quote markers before \<open>a\<close> is converted to
  \<open>k\<close> blockquotes, one inside the other, around the paragraph \<open>a\<close>, when \<open>k\<close> is less
  than the number of nested calls that the call stack admits; otherwise the call fails with
  the engine's \<open>RangeError\<close>.
\<close>

theorem nested_blockquotes_stack:
  "markdownToAdf_stack n (replicate k ch_gt @ js ''a'') =
     (if k < n
      then Inr \<lparr>version = 1, doc_type = ''doc'',
                content = nested_quote k [Paragraph [Text (js ''a'') None]]\<rparr>
      else Inl RangeError)"
  by (rule markdownToAdf_stack_nested_input)

text \<open>
  C3 as stated asks for a depth \<open>d\<close>, chosen by the converter, beyond which an
  error is reported. No depth works for every call stack: the same input is converted or
  overflows according to the stack alone, and for every \<open>d\<close> some stack converts an input
  nested deeper than \<open>d\<close>.
\<close>

theorem nesting_guard_counterexample:
  "markdownToAdf_stack 3 (js ''>>a'') =
     Inr \<lparr>version = 1, doc_type = ''doc'',
          content = [Blockquote [Blockquote [Paragraph [Text (js ''a'') None]]]]\<rparr>
   \<and> markdownToAdf_stack 2 (js ''>>a'') = Inl RangeError
   \<and> \<not> (\<exists>d. \<forall>n s. d < blocks_depth (content (markdownToAdf s)) \<longrightarrow>
              (\<exists>e. markdownToAdf_stack n s = Inl e))"
proof (intro conjI)
  have e: "js ''>>a'' = replicate 2 ch_gt @ js ''a''"
    by (simp add: js_def numeral_eq_Suc)
  show "markdownToAdf_stack 3 (js ''>>a'') =
     Inr \<lparr>version = 1, doc_type = ''doc'',
          content = [Blockquote [Blockquote [Paragraph [Text (js ''a'') None]]]]\<rparr>"
    unfolding e markdownToAdf_stack_nested_input by (simp add: numeral_eq_Suc)
  show "markdownToAdf_stack 2 (js ''>>a'') = Inl RangeError"
    unfolding e markdownToAdf_stack_nested_input by simp
  show "\<not> (\<exists>d. \<forall>n s. d < blocks_depth (content (markdownToAdf s)) \<longrightarrow>
              (\<exists>e. markdownToAdf_stack n s = Inl e))"
  proof
    assume "\<exists>d. \<forall>n s. d < blocks_depth (content (markdownToAdf s)) \<longrightarrow>
              (\<exists>e. markdownToAdf_stack n s = Inl e)"
    then obtain d where d: "\<And>n s. d < blocks_depth (content (markdownToAdf s)) \<Longrightarrow>
              \<exists>e. markdownToAdf_stack n s = Inl e"
      by blast
    have "d < blocks_depth (content (markdownToAdf (replicate (Suc d) ch_gt @ js ''a'')))"
      unfolding markdownToAdf_nested_input by (simp add: blocks_depth_def quote_depth_nested)
    from d [OF this, of "Suc (Suc d)"] show False
      unfolding markdownToAdf_stack_nested_input by simp
  qed
qed

section \<open>The two converters\<close>

lemma block_loop_ts_fence:
  "code_fence_open (trimEnd line) = Some language \<Longrightarrow>
     block_loop_ts (line # rest) buf blocks =
       block_loop_ts (drop 1 (dropWhile (\<lambda>l. \<not> is_fence_close l) rest)) []
         (flushParagraph buf blocks
            @ [codeBlock language (takeWhile (\<lambda>l. \<not> is_fence_close l) rest)])"
  by (simp add: block_loop_ts.simps)

lemma block_loop_ts_rule:
  assumes c: "code_fence_open (trimEnd line) = None" and r: "is_rule (trimEnd line)"
  shows "block_loop_ts (line # rest) buf blocks =
       block_loop_ts rest [] (flushParagraph buf blocks @ [Rule])"
  unfolding block_loop_ts.simps(2) [of line rest] Let_def
  by (simp only: c r option.case if_True)

lemma block_loop_ts_heading:
  assumes c: "code_fence_open (trimEnd line) = None"
    and r: "\<not> is_rule (trimEnd line)"
    and h: "heading_match (trimEnd line) = Some (level, body)"
  shows "block_loop_ts (line # rest) paragraphBuffer blocks =
      block_loop_ts rest []
        (flushParagraph paragraphBuffer blocks @ [Heading (min level 6) (parseInline body)])"
  unfolding block_loop_ts.simps(2) [of line rest] Let_def
  by (simp only: c r h option.case if_False prod.case)

lemma block_loop_ts_table:
  assumes c: "code_fence_open (trimEnd line) = None"
    and r: "\<not> is_rule (trimEnd line)"
    and h: "heading_match (trimEnd line) = None"
    and t: "is_table_row (trimEnd line)"
  shows "block_loop_ts (line # rest) paragraphBuffer blocks =
      block_loop_ts (dropWhile is_table_line (line # rest)) []
        (flushParagraph paragraphBuffer blocks
           @ [parseTableBlock (takeWhile is_table_line (line # rest))])"
  unfolding block_loop_ts.simps(2) [of line rest] Let_def
  by (simp only: c r h t option.case if_False if_True)

lemma block_loop_ts_late:
  assumes c: "code_fence_open (trimEnd line) = None"
    and r: "\<not> is_rule (trimEnd line)"
    and h: "heading_match (trimEnd line) = None"
    and t: "\<not> is_table_row (trimEnd line)"
  shows "block_loop_ts (line # rest) paragraphBuffer blocks =
      (if is_bullet_line_ts line
      then block_loop_ts (dropWhile is_bullet_line_ts (line # rest)) []
             (flushParagraph paragraphBuffer blocks
                @ [BulletList (map (\<lambda>l. listItem (the (bullet_item_ts l)))
                                 (takeWhile is_bullet_line_ts (line # rest)))])
      else if is_ordered_line line
      then block_loop_ts (dropWhile is_ordered_line (line # rest)) []
             (flushParagraph paragraphBuffer blocks
                @ [OrderedList (map (\<lambda>l. listItem (the (ordered_item l)))
                                  (takeWhile is_ordered_line (line # rest)))])
      else if trimEnd line = []
      then block_loop_ts rest [] (flushParagraph paragraphBuffer blocks)
      else block_loop_ts rest (paragraphBuffer @ [trimEnd line]) blocks)"
  unfolding block_loop_ts.simps(2) [of line rest] Let_def
  by (simp only: c r h t option.case if_False)

lemma is_table_row_first: "is_table_row t \<Longrightarrow> \<exists>t'. t = ch_pipe # t'"
  by (cases t) (auto simp: is_table_row_def startsWith_def)

lemma code_fence_not_table: "code_fence_open t = Some language \<Longrightarrow> \<not> is_table_row t"
  by (auto dest!: is_table_row_first simp: code_fence_open_Cons)

lemma rule_not_table: "is_rule t \<Longrightarrow> \<not> is_table_row t"
  by (auto dest!: is_table_row_first simp: is_rule_Cons)

lemma heading_not_table: "heading_match t = Some a \<Longrightarrow> \<not> is_table_row t"
  by (auto dest!: is_table_row_first simp: heading_match_Cons)

lemma table_line_first: "is_table_line l \<Longrightarrow> \<exists>t'. l = ch_pipe # t'"
  unfolding is_table_line_def
  by (auto dest!: is_table_row_first dest: trimEnd_Cons_line)

lemma bullet_not_table: "is_bullet_line l \<Longrightarrow> \<not> is_table_line l"
  by (auto dest!: table_line_first
      simp: is_bullet_line_def bullet_item_Cons is_space_def is_bullet_marker_def)

lemma ordered_not_table: "is_ordered_line l \<Longrightarrow> \<not> is_table_line l"
  by (auto dest!: table_line_first
      simp: is_ordered_line_def ordered_item_Cons is_space_def is_digit_def)

lemma fence_close_not_table: "is_fence_close l \<Longrightarrow> \<not> is_table_line l"
  by (auto dest!: is_table_row_first simp: is_fence_close_def is_table_line_def startsWith_def)

lemma bullet_item_ts_eq:
  assumes "\<not> is_dot_bullet_line l"
  shows "bullet_item_ts l = bullet_item l"
proof (cases "dropWhile is_space l")
  case Nil
  show ?thesis
    unfolding bullet_item_ts_def bullet_item_def Nil by simp
next
  case (Cons m b)
  from assms have "\<not> (m = ch_bullet \<and> takeWhile is_space b \<noteq> [])"
    unfolding is_dot_bullet_line_def Cons by simp
  then show ?thesis
    unfolding bullet_item_ts_def bullet_item_def Cons
    by (auto simp: is_bullet_marker_def is_bullet_marker_ts_def)
qed

lemma is_bullet_line_ts_eq: "\<not> is_dot_bullet_line l \<Longrightarrow> is_bullet_line_ts l = is_bullet_line l"
  by (simp add: is_bullet_line_ts_def is_bullet_line_def bullet_item_ts_eq)

lemma table_runs_dropWhile:
  "(\<And>l. P l \<Longrightarrow> \<not> is_table_line l) \<Longrightarrow> table_runs_separated ls \<Longrightarrow>
     table_runs_separated (dropWhile P ls)"
  by (induction ls) auto

lemma table_runs_after:
  "table_runs_separated (pre @ c # ys) \<Longrightarrow> \<not> is_table_line c \<Longrightarrow> table_runs_separated ys"
proof (induction pre rule: length_induct)
  case (1 pre)
  show ?case
  proof (cases pre)
    case Nil
    with 1 show ?thesis by simp
  next
    case (Cons p pre')
    show ?thesis
    proof (cases "is_table_line p")
      case False
      with "1.prems" Cons have "table_runs_separated (pre' @ c # ys)" by simp
      moreover have "length pre' < length pre" using Cons by simp
      ultimately show ?thesis
        using "1.IH" "1.prems"(2) by blast
    next
      case True
      with "1.prems" Cons
      have d: "table_runs_separated (dropWhile is_table_line (pre' @ c # ys))" by simp
      show ?thesis
      proof (cases "\<forall>x\<in>set pre'. is_table_line x")
        case True
        then have "dropWhile is_table_line (pre' @ c # ys) = c # ys"
          using "1.prems"(2) by (simp add: dropWhile_append2)
        with d "1.prems"(2) show ?thesis by simp
      next
        case False
        then have "dropWhile is_table_line (pre' @ c # ys) = dropWhile is_table_line pre' @ c # ys"
          by (auto simp: dropWhile_append1)
        moreover have "length (dropWhile is_table_line pre') < length pre"
          using length_dropWhile_le [of is_table_line pre'] Cons by simp
        ultimately show ?thesis
          using "1.IH" d "1.prems"(2) by auto
      qed
    qed
  qed
qed

lemma table_runs_after_fence:
  assumes "table_runs_separated rest"
  shows "table_runs_separated (drop 1 (dropWhile (\<lambda>l. \<not> is_fence_close l) rest))"
proof (cases "dropWhile (\<lambda>l. \<not> is_fence_close l) rest")
  case Nil
  show ?thesis unfolding Nil by simp
next
  case (Cons c ys)
  then have c: "is_fence_close c"
    using hd_dropWhile [of "\<lambda>l. \<not> is_fence_close l" rest] by auto
  have "rest = takeWhile (\<lambda>l. \<not> is_fence_close l) rest @ c # ys"
    using Cons takeWhile_dropWhile_id [of "\<lambda>l. \<not> is_fence_close l" rest] by simp
  then have "table_runs_separated (takeWhile (\<lambda>l. \<not> is_fence_close l) rest @ c # ys)"
    using assms by simp
  then have "table_runs_separated ys"
    using fence_close_not_table [OF c] by (rule table_runs_after)
  then show ?thesis unfolding Cons by simp
qed

lemma list_all_dropWhile: "list_all Q xs \<Longrightarrow> list_all Q (dropWhile P xs)"
  by (auto simp: list_all_iff dest: set_dropWhileD)

lemma list_all_drop: "list_all Q xs \<Longrightarrow> list_all Q (drop n xs)"
  by (auto simp: list_all_iff dest: in_set_dropD)

lemma length_dropWhile_head: "P x \<Longrightarrow> length (dropWhile P (x # xs)) < length (x # xs)"
  using length_dropWhile_le [of P xs] by simp

lemma length_drop_dropWhile_tail: "length (drop n (dropWhile P xs)) < length (x # xs)"
  using length_dropWhile_le [of P xs] by simp

lemma bullet_runs_agree:
  assumes "list_all plain_line ls"
  shows "takeWhile is_bullet_line_ts ls = takeWhile is_bullet_line ls"
    and "dropWhile is_bullet_line_ts ls = dropWhile is_bullet_line ls"
    and "map (\<lambda>l. listItem (the (bullet_item_ts l))) (takeWhile is_bullet_line ls) =
         map (\<lambda>l. listItem (the (bullet_item l))) (takeWhile is_bullet_line ls)"
proof -
  have e: "is_bullet_line_ts x = is_bullet_line x" "bullet_item_ts x = bullet_item x"
    if "x \<in> set ls" for x
    using assms that by (simp_all add: list_all_iff plain_line_def is_bullet_line_ts_eq bullet_item_ts_eq)
  show "takeWhile is_bullet_line_ts ls = takeWhile is_bullet_line ls"
    by (rule takeWhile_cong) (simp_all add: e)
  show "dropWhile is_bullet_line_ts ls = dropWhile is_bullet_line ls"
    by (rule dropWhile_cong) (simp_all add: e)
  show "map (\<lambda>l. listItem (the (bullet_item_ts l))) (takeWhile is_bullet_line ls) =
         map (\<lambda>l. listItem (the (bullet_item l))) (takeWhile is_bullet_line ls)"
    by (rule map_cong) (auto dest: set_takeWhileD simp: e)
qed

lemma block_loops_agree:
  "list_all plain_line ls \<Longrightarrow> table_runs_separated ls \<Longrightarrow>
     block_loop ls buf blocks = block_loop_ts ls buf blocks"
proof (induction ls arbitrary: buf blocks rule: length_induct)
  case (1 ls)
  have IH: "block_loop ys b bl = block_loop_ts ys b bl"
    if "length ys < length ls" "list_all plain_line ys" "table_runs_separated ys" for ys b bl
    using "1.IH" that by blast
  show ?case
  proof (cases ls)
    case Nil
    show ?thesis
      unfolding Nil by (simp add: block_loop.simps(1) block_loop_ts.simps(1))
  next
    case (Cons line rest)
    note IH' = IH [unfolded Cons]
    have ok: "list_all plain_line (line # rest)"
      using "1.prems"(1) unfolding Cons .
    then have okr: "list_all plain_line rest" and "plain_line line"
      by simp_all
    then have okl: "\<not> is_quote_line line" "\<not> is_dot_bullet_line line"
      by (simp_all add: plain_line_def)
    have trs: "table_runs_separated (line # rest)"
      using "1.prems"(2) unfolding Cons .
    have trs_rest: "table_runs_separated rest" if "\<not> is_table_row (trimEnd line)"
      using trs that by (simp add: is_table_line_def)
    have IH_rest: "block_loop rest b bl = block_loop_ts rest b bl"
      if "\<not> is_table_row (trimEnd line)" for b bl
      using that by (intro IH' okr trs_rest) simp
    have q: "\<not> is_blockquote (trimEnd line)"
      using okl(1) by (simp add: is_quote_line_def)
    show ?thesis
    proof (cases "code_fence_open (trimEnd line)")
      case (Some language)
      have "table_runs_separated (drop 1 (dropWhile (\<lambda>l. \<not> is_fence_close l) rest))"
        by (intro table_runs_after_fence trs_rest code_fence_not_table [OF Some])
      moreover have "length (drop 1 (dropWhile (\<lambda>l. \<not> is_fence_close l) rest)) < length (line # rest)"
        by (rule length_drop_dropWhile_tail)
      ultimately show ?thesis
        unfolding Cons block_loop_fence [OF Some] block_loop_ts_fence [OF Some]
        by (intro IH' list_all_drop list_all_dropWhile okr)
    next
      case None
      note c = None
      show ?thesis
      proof (cases "is_rule (trimEnd line)")
        case True
        show ?thesis
          unfolding Cons block_loop_rule [OF True] block_loop_ts_rule [OF c True]
          by (rule IH_rest [OF rule_not_table [OF True]])
      next
        case False
        note r = False
        show ?thesis
        proof (cases "heading_match (trimEnd line)")
          case (Some a)
          obtain level body where a: "a = (level, body)" by (cases a)
          note h = Some [unfolded a]
          show ?thesis
            unfolding Cons block_loop_heading [OF c r h] block_loop_ts_heading [OF c r h]
            by (rule IH_rest [OF heading_not_table [OF h]])
        next
          case None
          note h = None
          show ?thesis
          proof (cases "is_table_row (trimEnd line)")
            case True
            then have tl: "is_table_line line" by (simp add: is_table_line_def)
            with trs have sep: "is_separator_row (nextLine rest)"
              and tr: "table_runs_separated (dropWhile is_table_line rest)"
              by simp_all
            have d: "dropWhile is_table_line (line # rest) = dropWhile is_table_line rest"
              using tl by simp
            have "block_loop (dropWhile is_table_line rest) b bl =
                block_loop_ts (dropWhile is_table_line rest) b bl" for b bl
              using tr length_dropWhile_le [of is_table_line rest]
              by (intro IH' list_all_dropWhile okr) simp_all
            then show ?thesis
              unfolding Cons block_loop_table [OF c r h q conjI [OF True sep]]
                block_loop_ts_table [OF c r h True] d
              by simp
          next
            case False
            note nt = False
            then have t: "\<not> (is_table_row (trimEnd line) \<and> is_separator_row (nextLine rest))"
              by simp
            have ntl: "\<not> is_table_line line"
              using nt by (simp add: is_table_line_def)
            have bl: "is_bullet_line_ts line = is_bullet_line line"
              using okl(2) by (rule is_bullet_line_ts_eq)
            show ?thesis
            proof (cases "is_bullet_line line")
              case True
              have "table_runs_separated (dropWhile is_bullet_line (line # rest))"
                using bullet_not_table trs by (rule table_runs_dropWhile)
              then have "block_loop (dropWhile is_bullet_line (line # rest)) b bl =
                  block_loop_ts (dropWhile is_bullet_line (line # rest)) b bl" for b bl
                using length_dropWhile_head [of is_bullet_line line rest, OF True]
                by (intro IH' list_all_dropWhile ok)
              then show ?thesis
                unfolding Cons block_loop_late [OF c r h q t] block_loop_ts_late [OF c r h nt]
                  bl if_P [OF True] bullet_runs_agree(1,2) [OF ok]
                by (simp only: bullet_runs_agree(3) [OF ok])
            next
              case False
              note b = False
              show ?thesis
              proof (cases "is_ordered_line line")
                case True
                have "table_runs_separated (dropWhile is_ordered_line (line # rest))"
                  using ordered_not_table trs by (rule table_runs_dropWhile)
                then have "block_loop (dropWhile is_ordered_line (line # rest)) b bl =
                    block_loop_ts (dropWhile is_ordered_line (line # rest)) b bl" for b bl
                  using length_dropWhile_head [of is_ordered_line line rest, OF True]
                  by (intro IH' list_all_dropWhile ok)
                then show ?thesis
                  unfolding Cons block_loop_late [OF c r h q t] block_loop_ts_late [OF c r h nt]
                    bl if_not_P [OF b] if_P [OF True]
                  by simp
              next
                case False
                show ?thesis
                  unfolding Cons block_loop_late [OF c r h q t] block_loop_ts_late [OF c r h nt]
                    bl if_not_P [OF b] if_not_P [OF False]
                  by (simp only: IH_rest [OF nt])
              qed
            qed
          qed
        qed
      qed
    qed
  qed
qed

text \<open>
  C10 (amended). The two converters return the same document for every input in which
  no line, right-trimmed, begins with \<open>>\<close>, no line is a bullet item marked with
  U+2022, and the first line of every run of consecutive pipe rows is immediately followed
  by a separator row.
\<close>

theorem converters_agree:
  assumes "\<forall>l\<in>set (js_split ch_nl s). \<not> is_blockquote (trimEnd l) \<and> \<not> is_dot_bullet_line l"
    and "table_runs_separated (js_split ch_nl s)"
  shows "markdownToAdf s = markdownToAdf_ts s"
proof -
  have "list_all plain_line (js_split ch_nl s)"
    using assms(1) by (simp add: list_all_iff plain_line_def is_quote_line_def)
  then have "block_loop (js_split ch_nl s) [] [] = block_loop_ts (js_split ch_nl s) [] []"
    using assms(2) by (rule block_loops_agree)
  then show ?thesis
    by (simp add: markdownToAdf.simps markdownToAdf_ts_def)
qed

theorem converters_agree_witness:
  "list_all (\<lambda>l. \<not> is_blockquote (trimEnd l) \<and> \<not> is_dot_bullet_line l)
     (js_split ch_nl (js ''# T\<newline>| A | B |\<newline>|---|---|\<newline>| 1 | 2 |\<newline>- x\<newline>text''))
   \<and> table_runs_separated
        (js_split ch_nl (js ''# T\<newline>| A | B |\<newline>|---|---|\<newline>| 1 | 2 |\<newline>- x\<newline>text''))
   \<and> markdownToAdf (js ''# T\<newline>| A | B |\<newline>|---|---|\<newline>| 1 | 2 |\<newline>- x\<newline>text'')
       = markdownToAdf_ts (js ''# T\<newline>| A | B |\<newline>|---|---|\<newline>| 1 | 2 |\<newline>- x\<newline>text'')"
proof -
  have h1: "\<forall>l\<in>set (js_split ch_nl (js ''# T\<newline>| A | B |\<newline>|---|---|\<newline>| 1 | 2 |\<newline>- x\<newline>text'')).
      \<not> is_blockquote (trimEnd l) \<and> \<not> is_dot_bullet_line l"
    by code_simp
  have h2: "table_runs_separated
        (js_split ch_nl (js ''# T\<newline>| A | B |\<newline>|---|---|\<newline>| 1 | 2 |\<newline>- x\<newline>text''))"
    by code_simp
  from converters_agree [OF h1 h2] h1 h2 show ?thesis by (simp add: list_all_iff)
qed

text \<open>
  A pipe row alone, with no quote line in the input: the converter without blockquotes
  makes a table of it, the other a paragraph.
\<close>

theorem converters_differ_counterexample:
  "list_all (\<lambda>l. \<not> startsWith (trimEnd l) [ch_gt]) (js_split ch_nl (js ''| A | B |''))
   \<and> content (markdownToAdf (js ''| A | B |'')) = [Paragraph [Text (js ''| A | B |'') None]]
   \<and> content (markdownToAdf_ts (js ''| A | B |'')) =
       [Table False ''default''
          [TableRow [TableHeader [Paragraph [Text (js ''A'') None]],
                     TableHeader [Paragraph [Text (js ''B'') None]]]]]
   \<and> markdownToAdf (js ''| A | B |'') \<noteq> markdownToAdf_ts (js ''| A | B |'')"
proof -
  have a: "list_all (\<lambda>l. \<not> startsWith (trimEnd l) [ch_gt]) (js_split ch_nl (js ''| A | B |''))"
    by code_simp
  have b: "content (markdownToAdf (js ''| A | B |'')) = [Paragraph [Text (js ''| A | B |'') None]]"
    by code_simp
  have c: "content (markdownToAdf_ts (js ''| A | B |'')) =
       [Table False ''default''
          [TableRow [TableHeader [Paragraph [Text (js ''A'') None]],
                     TableHeader [Paragraph [Text (js ''B'') None]]]]]"
    by code_simp
  have "content (markdownToAdf (js ''| A | B |'')) \<noteq> content (markdownToAdf_ts (js ''| A | B |''))"
    unfolding b c by simp
  then have "markdownToAdf (js ''| A | B |'') \<noteq> markdownToAdf_ts (js ''| A | B |'')"
    by auto
  with a b c show ?thesis by blast
qed

end
